theory Spec2Isabelle
  imports Main "HOL-Library.Word"
begin

section \<open>The buffer cache of kernel/bio.c\<close>

text \<open>
  The embedding follows \<^verbatim>\<open>src/kernel/bio.c\<close>, the variant of the cache that skips the
  already-held bucket in the pool scan.  Pointers into \<^verbatim>\<open>bcache.head[]\<close> and
  \<^verbatim>\<open>bcache.buf[]\<close> are values of type \<open>ptr\<close>; the fields of \<^verbatim>\<open>struct buf\<close> are
  functions from pointers, so that the list surgery of the source (which writes through
  \<^verbatim>\<open>b->next->prev\<close>) keeps its aliasing.  \<^verbatim>\<open>uint\<close> is a 32-bit word and wraps.
\<close>

type_synonym uint = "32 word"
type_synonym byte = "8 word"

datatype ptr = Head nat | Buf nat

datatype lockid = Global | Bucket nat

datatype lock_event = Acquire lockid | Release lockid

datatype io_event = DiskRead uint uint | DiskWrite uint uint

text \<open>
  \<open>holder\<close> is the sleep lock of a buffer (\<open>None\<close>: unlocked, \<open>Some p\<close>: locked by
  process \<open>p\<close>); \<open>disk\<close> is the storage behind \<^verbatim>\<open>virtio_disk_rw\<close>; \<open>io\<close> logs the
  calls of \<^verbatim>\<open>virtio_disk_rw\<close> and \<open>trace\<close> the spin lock operations, in program order.
  The C field \<^verbatim>\<open>int valid\<close> only ever holds 0 or 1 and is a \<open>bool\<close>.
\<close>

record bcache =
  dev :: "ptr \<Rightarrow> uint"
  blockno :: "ptr \<Rightarrow> uint"
  valid :: "ptr \<Rightarrow> bool"
  refcnt :: "ptr \<Rightarrow> uint"
  data :: "ptr \<Rightarrow> byte list"
  nextp :: "ptr \<Rightarrow> ptr"
  prevp :: "ptr \<Rightarrow> ptr"
  holder :: "ptr \<Rightarrow> nat option"
  disk :: "uint \<times> uint \<Rightarrow> byte list"
  io :: "io_event list"
  trace :: "lock_event list"

text \<open>
  What a call does: it returns a value and a state, panics (the kernel halts in the
  state reached), goes to sleep on a held sleep lock, or runs a list loop for ever
  (\<open>Diverges\<close>: the fuel of the loop ran out).
\<close>

datatype 'a outcome = Return 'a bcache | Panic string bcache | Sleeps bcache | Diverges

definition NBUCKETS :: nat where
  "NBUCKETS = 13"

text \<open>\<^verbatim>\<open>int id = blockno % NBUCKETS\<close>, on an unsigned 32-bit block number.\<close>

definition bucket_of :: "uint \<Rightarrow> nat" where
  "bucket_of blk = unat blk mod NBUCKETS"

text \<open>Modelled from the spec: the block size of \<^verbatim>\<open>fs.h\<close>, which is not among the sources.\<close>

definition BSIZE :: nat where
  "BSIZE = 1024"

subsection \<open>Locks and the disk\<close>

text \<open>
  Modelled from the spec: \<^verbatim>\<open>acquire\<close> and \<^verbatim>\<open>release\<close> of \<^verbatim>\<open>spinlock.c\<close>, which is not
  among the sources.  The short critical sections they delimit run without interleaving;
  the model records the order of the lock operations.
\<close>

definition acquire :: "lockid \<Rightarrow> bcache \<Rightarrow> bcache" where
  "acquire l s = s\<lparr>trace := trace s @ [Acquire l]\<rparr>"

definition release :: "lockid \<Rightarrow> bcache \<Rightarrow> bcache" where
  "release l s = s\<lparr>trace := trace s @ [Release l]\<rparr>"

text \<open>
  Modelled from the spec: the sleep lock of \<^verbatim>\<open>sleeplock.c\<close> (the exclusive-access token),
  which is not among the sources.  \<^verbatim>\<open>acquiresleep\<close> sleeps while the lock is held, by
  whomever: \<open>None\<close> is the caller going to sleep.
\<close>

definition holdingsleep :: "nat \<Rightarrow> ptr \<Rightarrow> bcache \<Rightarrow> bool" where
  "holdingsleep p b s = (holder s b = Some p)"

definition acquiresleep :: "nat \<Rightarrow> ptr \<Rightarrow> bcache \<Rightarrow> bcache option" where
  "acquiresleep p b s =
     (if holder s b = None then Some (s\<lparr>holder := (holder s)(b := Some p)\<rparr>) else None)"

definition releasesleep :: "ptr \<Rightarrow> bcache \<Rightarrow> bcache" where
  "releasesleep b s = s\<lparr>holder := (holder s)(b := None)\<rparr>"

text \<open>
  Modelled from the spec: the Storage Adapter \<^verbatim>\<open>virtio_disk_rw(b, write)\<close>, which is not
  among the sources: a synchronous transfer of one block between \<open>data b\<close> and the disk.
\<close>

definition virtio_disk_rw :: "ptr \<Rightarrow> bool \<Rightarrow> bcache \<Rightarrow> bcache" where
  "virtio_disk_rw b write s =
     (if write
      then s\<lparr>disk := (disk s)((dev s b, blockno s b) := data s b),
             io := io s @ [DiskWrite (dev s b) (blockno s b)]\<rparr>
      else s\<lparr>data := (data s)(b := disk s (dev s b, blockno s b)),
             io := io s @ [DiskRead (dev s b) (blockno s b)]\<rparr>)"

subsection \<open>List surgery\<close>

text \<open>\<^verbatim>\<open>b->next->prev = b->prev; b->prev->next = b->next;\<close>\<close>

definition unlink :: "ptr \<Rightarrow> bcache \<Rightarrow> bcache" where
  "unlink b s =
     (let s1 = s\<lparr>prevp := (prevp s)(nextp s b := prevp s b)\<rparr>
      in s1\<lparr>nextp := (nextp s1)(prevp s1 b := nextp s1 b)\<rparr>)"

text \<open>
  \<^verbatim>\<open>b->next = head.next; b->prev = &head; head.next->prev = b; head.next = b;\<close>
\<close>

definition insert_head :: "ptr \<Rightarrow> ptr \<Rightarrow> bcache \<Rightarrow> bcache" where
  "insert_head h b s =
     (let s1 = s\<lparr>nextp := (nextp s)(b := nextp s h)\<rparr>;
          s2 = s1\<lparr>prevp := (prevp s1)(b := h)\<rparr>;
          s3 = s2\<lparr>prevp := (prevp s2)(nextp s2 h := b)\<rparr>
      in s3\<lparr>nextp := (nextp s3)(h := b)\<rparr>)"

subsection \<open>binit\<close>

text \<open>
  \<^verbatim>\<open>bcache\<close> has static storage: every field starts as zero.  \<^verbatim>\<open>binit\<close> assigns the
  \<^verbatim>\<open>prev\<close> and \<^verbatim>\<open>next\<close> of every head and of every buffer before reading them, so their
  initial null value is never used; the model starts them as self-links.  The contents of
  the disk are a parameter.
\<close>

definition zeroed :: "(uint \<times> uint \<Rightarrow> byte list) \<Rightarrow> bcache" where
  "zeroed dsk =
     \<lparr>dev = (\<lambda>_. 0), blockno = (\<lambda>_. 0), valid = (\<lambda>_. False), refcnt = (\<lambda>_. 0),
      data = (\<lambda>_. replicate BSIZE 0), nextp = (\<lambda>b. b), prevp = (\<lambda>b. b),
      holder = (\<lambda>_. None), disk = dsk, io = [], trace = []\<rparr>"

text \<open>The first loop: \<^verbatim>\<open>bcache.head[i].prev = bcache.head[i].next = &bcache.head[i]\<close>.\<close>

definition init_head :: "nat \<Rightarrow> bcache \<Rightarrow> bcache" where
  "init_head i s =
     (let s1 = s\<lparr>prevp := (prevp s)(Head i := Head i)\<rparr>
      in s1\<lparr>nextp := (nextp s1)(Head i := Head i)\<rparr>)"

text \<open>
  The body of the inner loop of the second one; \<^verbatim>\<open>initsleeplock\<close> leaves the lock free.
\<close>

definition init_buf :: "nat \<Rightarrow> ptr \<Rightarrow> bcache \<Rightarrow> bcache" where
  "init_buf i b s =
     (let s1 = s\<lparr>nextp := (nextp s)(b := nextp s (Head i))\<rparr>;
          s2 = s1\<lparr>prevp := (prevp s1)(b := Head i)\<rparr>;
          s3 = s2\<lparr>holder := (holder s2)(b := None)\<rparr>;
          s4 = s3\<lparr>prevp := (prevp s3)(nextp s3 (Head i) := b)\<rparr>
      in s4\<lparr>nextp := (nextp s4)(Head i := b)\<rparr>)"

text \<open>
  \<^verbatim>\<open>for(b = bcache.buf+i; b < bcache.buf + NBUF; b += NBUCKETS)\<close>: the buffers
  \<open>i, i + 13, i + 26, ...\<close> below \<open>n\<close>.  \<open>n\<close> is \<^verbatim>\<open>NBUF\<close> of \<^verbatim>\<open>param.h\<close>, which is not
  among the sources, and is a parameter throughout.
\<close>

function init_chain :: "nat \<Rightarrow> nat \<Rightarrow> nat \<Rightarrow> bcache \<Rightarrow> bcache" where
  "init_chain n i j s =
     (if j < n then init_chain n i (j + NBUCKETS) (init_buf i (Buf j) s) else s)"
  by pat_completeness auto
termination
  by (relation "measure (\<lambda>(n, i, j, s). n - j)") (auto simp: NBUCKETS_def)

declare init_chain.simps [simp del]

definition binit :: "nat \<Rightarrow> (uint \<times> uint \<Rightarrow> byte list) \<Rightarrow> bcache" where
  "binit n dsk =
     fold (\<lambda>i. init_chain n i i) [0..<NBUCKETS]
       (fold init_head [0..<NBUCKETS] (zeroed dsk))"

subsection \<open>bget\<close>

text \<open>
  \<^verbatim>\<open>for(b = bcache.head[id].next; b != &bcache.head[id]; b = b->next)\<close>, looking for the
  block.  \<open>None\<close>: the fuel ran out; \<open>Some None\<close>: the loop ended at the head;
  \<open>Some (Some b)\<close>: the body returned at \<open>b\<close>.
\<close>

fun find_cached :: "nat \<Rightarrow> bcache \<Rightarrow> ptr \<Rightarrow> uint \<Rightarrow> uint \<Rightarrow> ptr \<Rightarrow> ptr option option" where
  "find_cached 0 s h d blk b = None"
| "find_cached (Suc f) s h d blk b =
     (if b = h then Some None
      else if dev s b = d \<and> blockno s b = blk then Some (Some b)
      else find_cached f s h d blk (nextp s b))"

text \<open>
  \<^verbatim>\<open>for(b = bcache.head[id].prev; b != &bcache.head[id]; b = b->prev)\<close>, looking for a
  buffer with \<^verbatim>\<open>refcnt == 0\<close>.
\<close>

fun find_unused :: "nat \<Rightarrow> bcache \<Rightarrow> ptr \<Rightarrow> ptr \<Rightarrow> ptr option option" where
  "find_unused 0 s h b = None"
| "find_unused (Suc f) s h b =
     (if b = h then Some None
      else if refcnt s b = 0 then Some (Some b)
      else find_unused f s h (prevp s b))"

text \<open>
  \<^verbatim>\<open>b->dev = dev; b->blockno = blockno; b->valid = 0; b->refcnt = 1;\<close>
\<close>

definition claim :: "uint \<Rightarrow> uint \<Rightarrow> ptr \<Rightarrow> bcache \<Rightarrow> bcache" where
  "claim d blk b s =
     s\<lparr>dev := (dev s)(b := d), blockno := (blockno s)(b := blk),
       valid := (valid s)(b := False), refcnt := (refcnt s)(b := 1)\<rparr>"

text \<open>
  The first critical section of \<^verbatim>\<open>bget\<close> (lines 79 to 106), under the lock of the
  target bucket: the search for the block, then the search for an unused buffer of the
  same bucket.  It returns \<open>Some b\<close> where the source goes on to \<^verbatim>\<open>acquiresleep(&b->lock)\<close>,
  and \<open>None\<close> where it has released the bucket lock at line 106 and goes on to the
  global lock.
\<close>

definition bget_bucket :: "nat \<Rightarrow> uint \<Rightarrow> uint \<Rightarrow> bcache \<Rightarrow> ptr option outcome" where
  "bget_bucket f d blk s =
     (let id = bucket_of blk;
          s1 = acquire (Bucket id) s
      in case find_cached f s1 (Head id) d blk (nextp s1 (Head id)) of
           None \<Rightarrow> Diverges
         | Some (Some b) \<Rightarrow>
             Return (Some b)
               (release (Bucket id) (s1\<lparr>refcnt := (refcnt s1)(b := refcnt s1 b + 1)\<rparr>))
         | Some None \<Rightarrow>
             (case find_unused f s1 (Head id) (prevp s1 (Head id)) of
                None \<Rightarrow> Diverges
              | Some (Some b) \<Rightarrow> Return (Some b) (release (Bucket id) (claim d blk b s1))
              | Some None \<Rightarrow> Return None (release (Bucket id) s1)))"

text \<open>
  \<^verbatim>\<open>for(b = bcache.buf; b < bcache.buf + NBUF; b++)\<close> (lines 111 to 147), over the
  indices still to visit, with the global lock and the lock of the target bucket
  \<open>bkt\<close> (the source's \<^verbatim>\<open>id\<close>) held.
\<close>

fun steal_scan :: "nat \<Rightarrow> uint \<Rightarrow> uint \<Rightarrow> nat list \<Rightarrow> bcache \<Rightarrow> ptr outcome" where
  "steal_scan bkt d blk [] s = Panic ''bget: no buffers'' s"
| "steal_scan bkt d blk (j # js) s =
     (let b = Buf j;
          new_id = bucket_of (blockno s b)
      in if new_id = bkt then steal_scan bkt d blk js s
         else
           (let s1 = acquire (Bucket new_id) s
            in if refcnt s1 b = 0
               then Return b
                      (release Global (release (Bucket bkt) (release (Bucket new_id)
                        (insert_head (Head bkt) b (unlink b (claim d blk b s1))))))
               else steal_scan bkt d blk js (release (Bucket new_id) s1)))"

text \<open>The second critical section of \<^verbatim>\<open>bget\<close> (lines 109 to 147).\<close>

definition bget_steal :: "nat \<Rightarrow> uint \<Rightarrow> uint \<Rightarrow> bcache \<Rightarrow> ptr outcome" where
  "bget_steal n d blk s =
     (let id = bucket_of blk
      in steal_scan id d blk [0..<n] (acquire (Bucket id) (acquire Global s)))"

text \<open>\<^verbatim>\<open>bget\<close> up to, and without, its \<^verbatim>\<open>acquiresleep(&b->lock)\<close>.\<close>

definition bget_reserve :: "nat \<Rightarrow> nat \<Rightarrow> uint \<Rightarrow> uint \<Rightarrow> bcache \<Rightarrow> ptr outcome" where
  "bget_reserve f n d blk s =
     (case bget_bucket f d blk s of
        Return (Some b) s1 \<Rightarrow> Return b s1
      | Return None s1 \<Rightarrow> bget_steal n d blk s1
      | Panic m s1 \<Rightarrow> Panic m s1
      | Sleeps s1 \<Rightarrow> Sleeps s1
      | Diverges \<Rightarrow> Diverges)"

text \<open>\<^verbatim>\<open>bget(dev, blockno)\<close>, called by process \<open>p\<close>, with \<open>f\<close> the fuel of the list loops.\<close>

definition bget :: "nat \<Rightarrow> nat \<Rightarrow> nat \<Rightarrow> uint \<Rightarrow> uint \<Rightarrow> bcache \<Rightarrow> ptr outcome" where
  "bget f n p d blk s =
     (case bget_reserve f n d blk s of
        Return b s1 \<Rightarrow>
          (case acquiresleep p b s1 of None \<Rightarrow> Sleeps s1 | Some s2 \<Rightarrow> Return b s2)
      | Panic m s1 \<Rightarrow> Panic m s1
      | Sleeps s1 \<Rightarrow> Sleeps s1
      | Diverges \<Rightarrow> Diverges)"

subsection \<open>bread, bwrite, brelse, bpin, bunpin\<close>

definition bread :: "nat \<Rightarrow> nat \<Rightarrow> nat \<Rightarrow> uint \<Rightarrow> uint \<Rightarrow> bcache \<Rightarrow> ptr outcome" where
  "bread f n p d blk s =
     (case bget f n p d blk s of
        Return b s1 \<Rightarrow>
          (if \<not> valid s1 b
           then (let s2 = virtio_disk_rw b False s1
                 in Return b (s2\<lparr>valid := (valid s2)(b := True)\<rparr>))
           else Return b s1)
      | Panic m s1 \<Rightarrow> Panic m s1
      | Sleeps s1 \<Rightarrow> Sleeps s1
      | Diverges \<Rightarrow> Diverges)"

definition bwrite :: "nat \<Rightarrow> ptr \<Rightarrow> bcache \<Rightarrow> unit outcome" where
  "bwrite p b s =
     (if \<not> holdingsleep p b s then Panic ''bwrite'' s
      else Return () (virtio_disk_rw b True s))"

definition brelse :: "nat \<Rightarrow> ptr \<Rightarrow> bcache \<Rightarrow> unit outcome" where
  "brelse p b s =
     (if \<not> holdingsleep p b s then Panic ''brelse'' s
      else
        (let s1 = releasesleep b s;
             id = bucket_of (blockno s1 b);
             s2 = acquire (Bucket id) s1;
             s3 = s2\<lparr>refcnt := (refcnt s2)(b := refcnt s2 b - 1)\<rparr>;
             s4 = (if refcnt s3 b = 0 then insert_head (Head id) b (unlink b s3) else s3)
         in Return () (release (Bucket id) s4)))"

definition bpin :: "ptr \<Rightarrow> bcache \<Rightarrow> bcache" where
  "bpin b s =
     (let id = bucket_of (blockno s b);
          s1 = acquire (Bucket id) s;
          s2 = s1\<lparr>refcnt := (refcnt s1)(b := refcnt s1 b + 1)\<rparr>
      in release (Bucket id) s2)"

definition bunpin :: "ptr \<Rightarrow> bcache \<Rightarrow> bcache" where
  "bunpin b s =
     (let id = bucket_of (blockno s b);
          s1 = acquire (Bucket id) s;
          s2 = s1\<lparr>refcnt := (refcnt s1)(b := refcnt s1 b - 1)\<rparr>
      in release (Bucket id) s2)"

subsection \<open>Reading outcomes\<close>

fun value_of :: "'a outcome \<Rightarrow> 'a option" where
  "value_of (Return x s) = Some x"
| "value_of (Panic m s) = None"
| "value_of (Sleeps s) = None"
| "value_of Diverges = None"

fun panic_of :: "'a outcome \<Rightarrow> string option" where
  "panic_of (Return x s) = None"
| "panic_of (Panic m s) = Some m"
| "panic_of (Sleeps s) = None"
| "panic_of Diverges = None"

text \<open>
  The state in which a call leaves the cache.  A call that runs for ever leaves none; the
  closed statements below use \<open>state_of\<close> only on calls that they show to return or to
  panic.
\<close>

fun state_of :: "'a outcome \<Rightarrow> bcache" where
  "state_of (Return x s) = s"
| "state_of (Panic m s) = s"
| "state_of (Sleeps s) = s"
| "state_of Diverges = zeroed (\<lambda>_. [])"

text \<open>The metadata of a buffer, and what a call did, seen at one buffer.\<close>

definition fields :: "bcache \<Rightarrow> ptr \<Rightarrow> uint \<times> uint \<times> bool \<times> uint \<times> nat option" where
  "fields s b = (dev s b, blockno s b, valid s b, refcnt s b, holder s b)"

definition outcome_at ::
  "'a outcome \<Rightarrow> ptr \<Rightarrow> 'a option \<times> string option \<times> (uint \<times> uint \<times> bool \<times> uint \<times> nat option)" where
  "outcome_at r b = (value_of r, panic_of r, fields (state_of r) b)"

subsection \<open>The order of the spin locks\<close>



subsection \<open>The list of a bucket\<close>




subsection \<open>Cached blocks\<close>

text \<open>
  \<open>cached f s d blk\<close>: the first loop of \<^verbatim>\<open>bget(d, blk)\<close> finds the block in its bucket.
\<close>

definition cached :: "nat \<Rightarrow> bcache \<Rightarrow> uint \<Rightarrow> uint \<Rightarrow> bool" where
  "cached f s d blk =
     (case find_cached f s (Head (bucket_of blk)) d blk (nextp s (Head (bucket_of blk))) of
        Some (Some b) \<Rightarrow> True | _ \<Rightarrow> False)"

subsection \<open>Reachable states\<close>

text \<open>
  The states of a cache of \<open>n\<close> buffers that its callers can bring about, together with
  the set \<open>H\<close> of the buffers that \<^verbatim>\<open>bget\<close> has handed out so far: a caller can only name
  a buffer that \<^verbatim>\<open>bread\<close> returned to some caller, since \<^verbatim>\<open>bget\<close> is static and
  \<^verbatim>\<open>bcache\<close> is declared in no header.  Each rule is one step that runs without interleaving: a critical
  section of \<^verbatim>\<open>bget\<close>, the \<^verbatim>\<open>acquiresleep\<close> that ends it, the tail of \<^verbatim>\<open>bread\<close>, a write
  to the data of a locked buffer, or one of the other calls.  A \<^verbatim>\<open>bget\<close> whose first
  critical section missed has released every lock before its second one, so other steps
  come in between; rule \<open>stolen\<close> therefore does not look back at the miss.  No rule asks
  the caller for more than the code checks: in particular \<^verbatim>\<open>bpin\<close> and \<^verbatim>\<open>bunpin\<close> apply to
  any buffer handed out, whatever its reference count.
\<close>

inductive reach :: "nat \<Rightarrow> bcache \<Rightarrow> ptr set \<Rightarrow> bool" for n :: nat where
  init: "reach n (binit n dsk) {}"
| found: "reach n s H \<Longrightarrow> bget_bucket f d blk s = Return (Some b) s' \<Longrightarrow>
     reach n s' (insert b H)"
| missed: "reach n s H \<Longrightarrow> bget_bucket f d blk s = Return None s' \<Longrightarrow> reach n s' H"
| stolen: "reach n s H \<Longrightarrow> bget_steal n d blk s = Return b s' \<Longrightarrow>
     reach n s' (insert b H)"
| locked: "reach n s H \<Longrightarrow> b \<in> H \<Longrightarrow> acquiresleep p b s = Some s' \<Longrightarrow> reach n s' H"
| filled: "reach n s H \<Longrightarrow> b \<in> H \<Longrightarrow> holdingsleep p b s \<Longrightarrow> \<not> valid s b \<Longrightarrow>
     s' = virtio_disk_rw b False s \<Longrightarrow>
     reach n (s'\<lparr>valid := (valid s')(b := True)\<rparr>) H"
| modified: "reach n s H \<Longrightarrow> b \<in> H \<Longrightarrow> holdingsleep p b s \<Longrightarrow>
     reach n (s\<lparr>data := (data s)(b := x)\<rparr>) H"
| wrote: "reach n s H \<Longrightarrow> b \<in> H \<Longrightarrow> bwrite p b s = Return () s' \<Longrightarrow> reach n s' H"
| released: "reach n s H \<Longrightarrow> b \<in> H \<Longrightarrow> brelse p b s = Return () s' \<Longrightarrow> reach n s' H"
| pinned: "reach n s H \<Longrightarrow> b \<in> H \<Longrightarrow> reach n (bpin b s) H"
| unpinned: "reach n s H \<Longrightarrow> b \<in> H \<Longrightarrow> reach n (bunpin b s) H"

subsection \<open>Concrete states\<close>

text \<open>
  A blank disk and the cache after \<^verbatim>\<open>binit\<close> with 30 buffers (\<^verbatim>\<open>NBUF\<close> of xv6); 31 is
  fuel enough for every list of such a cache.
\<close>

definition blank_disk :: "uint \<times> uint \<Rightarrow> byte list" where
  "blank_disk x = replicate BSIZE 0"

definition boot :: bcache where
  "boot = binit 30 blank_disk"

text \<open>
  Process 7 has called \<^verbatim>\<open>bget(1, 13)\<close> after boot and holds buffer 0, the last of the
  list of bucket 0; processes 8 and 9 then take the two other buffers of that bucket.
\<close>

definition held0 :: bcache where
  "held0 = state_of (bget 31 30 7 1 13 boot)"

definition held1 :: bcache where
  "held1 = state_of (bget 31 30 8 1 26 held0)"

definition full0 :: bcache where
  "full0 = state_of (bget 31 30 9 1 39 held1)"




text \<open>
  Processes 7 and 8 hold blocks 18 and 31, in the two buffers of bucket 5.  Processes 9
  and 10 then both ask for block 5: each runs the first critical section of \<^verbatim>\<open>bget\<close>,
  then each runs the second, then each takes the sleep lock of what it got.
\<close>

definition bucket5_full :: bcache where
  "bucket5_full = state_of (bget 31 30 8 1 31 (state_of (bget 31 30 7 1 18 boot)))"

definition both_missed :: bcache where
  "both_missed = state_of (bget_bucket 31 1 5 (state_of (bget_bucket 31 1 5 bucket5_full)))"

definition first_stole :: bcache where
  "first_stole = state_of (bget_steal 30 1 5 both_missed)"

definition second_stole :: bcache where
  "second_stole = state_of (bget_steal 30 1 5 first_stole)"



text \<open>
  Process 7 releases buffer 0 (block 13); a stray \<^verbatim>\<open>bunpin\<close> and then a \<^verbatim>\<open>bpin\<close> of it
  follow, and processes 8 and 9 take the two other buffers of bucket 0.
\<close>

definition wrapped0 :: bcache where
  "wrapped0 = bunpin (Buf 0) (state_of (brelse 7 (Buf 0) held0))"

definition rewrapped0 :: bcache where
  "rewrapped0 =
     state_of (bget 31 30 9 1 39 (state_of (bget 31 30 8 1 26 (bpin (Buf 0) wrapped0))))"

text \<open>Process 7 has read block 5 of device 1 and released it: the block is cached.\<close>

definition cached5 :: bcache where
  "cached5 = state_of (brelse 7 (Buf 5) (state_of (bread 31 30 7 1 5 boot)))"

subsection \<open>The lock operations of the pool scan\<close>

text \<open>
  \<open>probes bkt es\<close>: \<open>es\<close> is a sequence of pairs, the lock of a bucket other than \<open>bkt\<close>
  acquired and at once released.
\<close>

fun probes :: "nat \<Rightarrow> lock_event list \<Rightarrow> bool" where
  "probes bkt [] = True"
| "probes bkt (Acquire (Bucket k) # Release (Bucket k') # es) =
     (k = k' \<and> k \<noteq> bkt \<and> probes bkt es)"
| "probes bkt es = False"

subsection \<open>Well-formed lists\<close>

text \<open>
  \<open>linked nx pv ys\<close>: each element of \<open>ys\<close> is the \<^verbatim>\<open>prev\<close> of the one after it, which
  is its \<^verbatim>\<open>next\<close>.  \<open>ring nx pv h xs\<close>: from the head \<open>h\<close> the list runs through the
  distinct buffers \<open>xs\<close> and back to \<open>h\<close>.  \<open>lists_of P nx pv \<alpha>\<close>: the thirteen buckets
  hold the rings \<open>\<alpha> i\<close>, which share no buffer and together hold the buffers \<open>P\<close>.
  \<open>cache_inv n s H\<close>: the pool of \<open>n\<close> buffers is spread over well-formed lists, every
  buffer handed out is in the list of the bucket of its block number, and every buffer
  of the pool in use has been handed out.
\<close>

definition linked :: "(ptr \<Rightarrow> ptr) \<Rightarrow> (ptr \<Rightarrow> ptr) \<Rightarrow> ptr list \<Rightarrow> bool" where
  "linked nx pv ys = successively (\<lambda>a b. nx a = b \<and> pv b = a) ys"

definition ring :: "(ptr \<Rightarrow> ptr) \<Rightarrow> (ptr \<Rightarrow> ptr) \<Rightarrow> ptr \<Rightarrow> ptr list \<Rightarrow> bool" where
  "ring nx pv h xs = (distinct (h # xs) \<and> linked nx pv (h # xs @ [h]))"

definition lists_of ::
  "ptr set \<Rightarrow> (ptr \<Rightarrow> ptr) \<Rightarrow> (ptr \<Rightarrow> ptr) \<Rightarrow> (nat \<Rightarrow> ptr list) \<Rightarrow> bool" where
  "lists_of P nx pv \<alpha> =
     ((\<forall>i<NBUCKETS. ring nx pv (Head i) (\<alpha> i)) \<and>
      (\<forall>i<NBUCKETS. \<forall>k<NBUCKETS. i \<noteq> k \<longrightarrow> set (\<alpha> i) \<inter> set (\<alpha> k) = {}) \<and>
      (\<Union>i<NBUCKETS. set (\<alpha> i)) = P \<and> P \<subseteq> range Buf)"

definition cache_inv :: "nat \<Rightarrow> bcache \<Rightarrow> ptr set \<Rightarrow> bool" where
  "cache_inv n s H =
     (\<exists>\<alpha>. lists_of (Buf ` {..<n}) (nextp s) (prevp s) \<alpha> \<and>
        (\<forall>b\<in>H. b \<in> set (\<alpha> (bucket_of (blockno s b)))) \<and>
        (\<forall>j<n. refcnt s (Buf j) \<noteq> 0 \<longrightarrow> Buf j \<in> H))"

section \<open>Properties\<close>

subsection \<open>The pool scan\<close>



lemma trace_commute:
  "claim d blk b (s\<lparr>trace := t\<rparr>) = (claim d blk b s)\<lparr>trace := t\<rparr>"
  "unlink b (s\<lparr>trace := t\<rparr>) = (unlink b s)\<lparr>trace := t\<rparr>"
  "insert_head h b (s\<lparr>trace := t\<rparr>) = (insert_head h b s)\<lparr>trace := t\<rparr>"
  by (simp_all add: claim_def unlink_def insert_head_def Let_def)

lemma steal_scan_Return:
  "steal_scan bkt d blk js s = Return b s' \<Longrightarrow>
   \<exists>js1 j js2 pre. js = js1 @ j # js2 \<and> b = Buf j \<and>
      bucket_of (blockno s b) \<noteq> bkt \<and> refcnt s b = 0 \<and>
      (\<forall>k\<in>set js1. bucket_of (blockno s (Buf k)) = bkt \<or> refcnt s (Buf k) \<noteq> 0) \<and>
      probes bkt pre \<and>
      s' = (insert_head (Head bkt) b (unlink b (claim d blk b s)))
             \<lparr>trace := trace s @ pre @
                [Acquire (Bucket (bucket_of (blockno s b))),
                 Release (Bucket (bucket_of (blockno s b))),
                 Release (Bucket bkt), Release Global]\<rparr>"
proof (induction js arbitrary: s)
  case Nil
  then show ?case by simp
next
  case (Cons j js)
  let ?b = "Buf j"
  let ?k = "bucket_of (blockno s ?b)"
  show ?case
  proof (cases "?k = bkt")
    case True
    with Cons.prems have "steal_scan bkt d blk js s = Return b s'"
      by (simp add: Let_def)
    from Cons.IH [OF this] obtain js1 j' js2 pre where
      h: "js = js1 @ j' # js2" "b = Buf j'" "bucket_of (blockno s b) \<noteq> bkt" "refcnt s b = 0"
         "\<forall>k\<in>set js1. bucket_of (blockno s (Buf k)) = bkt \<or> refcnt s (Buf k) \<noteq> 0"
         "probes bkt pre"
         "s' = (insert_head (Head bkt) b (unlink b (claim d blk b s)))
             \<lparr>trace := trace s @ pre @
                [Acquire (Bucket (bucket_of (blockno s b))),
                 Release (Bucket (bucket_of (blockno s b))),
                 Release (Bucket bkt), Release Global]\<rparr>"
      by blast
    show ?thesis
      apply (rule exI [of _ "j # js1"], rule exI [of _ j'], rule exI [of _ js2], rule exI [of _ pre])
      using h True by simp
  next
    case False
    note nk = this
    show ?thesis
    proof (cases "refcnt s ?b = 0")
      case True
      with nk Cons.prems have
        "s' = release Global (release (Bucket bkt) (release (Bucket ?k)
                (insert_head (Head bkt) ?b (unlink ?b (claim d blk ?b (acquire (Bucket ?k) s))))))"
        and "b = ?b"
        by (auto simp: Let_def acquire_def)
      then show ?thesis
        apply -
        apply (rule exI [of _ "[]"], rule exI [of _ j], rule exI [of _ js], rule exI [of _ "[]"])
        using nk True
        by (simp add: acquire_def release_def trace_commute claim_def unlink_def insert_head_def Let_def)
    next
      case False
      let ?s1 = "release (Bucket ?k) (acquire (Bucket ?k) s)"
      have s1: "?s1 = s\<lparr>trace := trace s @ [Acquire (Bucket ?k), Release (Bucket ?k)]\<rparr>"
        by (simp add: acquire_def release_def)
      from False nk Cons.prems have "steal_scan bkt d blk js ?s1 = Return b s'"
        by (simp add: Let_def acquire_def)
      from Cons.IH [OF this] obtain js1 j' js2 pre where
        h: "js = js1 @ j' # js2" "b = Buf j'" "bucket_of (blockno ?s1 b) \<noteq> bkt" "refcnt ?s1 b = 0"
         "\<forall>k\<in>set js1. bucket_of (blockno ?s1 (Buf k)) = bkt \<or> refcnt ?s1 (Buf k) \<noteq> 0"
         "probes bkt pre"
         "s' = (insert_head (Head bkt) b (unlink b (claim d blk b ?s1)))
             \<lparr>trace := trace ?s1 @ pre @
                [Acquire (Bucket (bucket_of (blockno ?s1 b))),
                 Release (Bucket (bucket_of (blockno ?s1 b))),
                 Release (Bucket bkt), Release Global]\<rparr>"
        by blast
      have p: "probes bkt ([Acquire (Bucket ?k), Release (Bucket ?k)] @ pre)"
        using h(6) nk by simp
      show ?thesis
        apply (rule exI [of _ "j # js1"], rule exI [of _ j'], rule exI [of _ js2],
               rule exI [of _ "[Acquire (Bucket ?k), Release (Bucket ?k)] @ pre"])
        using h False nk p unfolding s1
        by (simp add: trace_commute)
    qed
  qed
qed


lemma steal_scan_cases:
  "(\<exists>b s'. steal_scan bkt d blk js s = Return b s') \<or> (\<exists>m s'. steal_scan bkt d blk js s = Panic m s')"
  by (induction js arbitrary: s) (auto simp: Let_def)

subsection \<open>The two critical sections of bget\<close>

lemma find_cached_Some:
  "find_cached f s h d blk b0 = Some (Some b) \<Longrightarrow> dev s b = d \<and> blockno s b = blk \<and> b \<noteq> h"
  by (induction f arbitrary: b0) (auto split: if_splits)

lemma find_unused_Some:
  "find_unused f s h b0 = Some (Some b) \<Longrightarrow> refcnt s b = 0 \<and> b \<noteq> h"
  by (induction f arbitrary: b0) (auto split: if_splits)

lemma find_cached_cong:
  "dev s' = dev s \<Longrightarrow> blockno s' = blockno s \<Longrightarrow> nextp s' = nextp s \<Longrightarrow>
   find_cached f s' h d blk b0 = find_cached f s h d blk b0"
  by (induction f arbitrary: b0) auto

lemma find_unused_cong:
  "refcnt s' = refcnt s \<Longrightarrow> prevp s' = prevp s \<Longrightarrow>
   find_unused f s' h b0 = find_unused f s h b0"
  by (induction f arbitrary: b0) auto

text \<open>The two ways in which the first critical section hands out a buffer.\<close>

lemma bget_bucket_Some:
  assumes "bget_bucket f d blk s = Return (Some b) s'"
  shows "(find_cached f s (Head (bucket_of blk)) d blk (nextp s (Head (bucket_of blk))) = Some (Some b) \<and>
          s' = s\<lparr>refcnt := (refcnt s)(b := refcnt s b + 1),
                 trace := trace s @ [Acquire (Bucket (bucket_of blk)), Release (Bucket (bucket_of blk))]\<rparr>) \<or>
         (find_cached f s (Head (bucket_of blk)) d blk (nextp s (Head (bucket_of blk))) = Some None \<and>
          find_unused f s (Head (bucket_of blk)) (prevp s (Head (bucket_of blk))) = Some (Some b) \<and>
          s' = (claim d blk b s)
                 \<lparr>trace := trace s @ [Acquire (Bucket (bucket_of blk)), Release (Bucket (bucket_of blk))]\<rparr>)"
proof -
  let ?s1 = "acquire (Bucket (bucket_of blk)) s"
  have c: "find_cached f ?s1 h d blk b0 = find_cached f s h d blk b0" for h b0
    by (rule find_cached_cong) (simp_all add: acquire_def)
  have u: "find_unused f ?s1 h b0 = find_unused f s h b0" for h b0
    by (rule find_unused_cong) (simp_all add: acquire_def)
  have n: "nextp ?s1 = nextp s" "prevp ?s1 = prevp s"
    by (simp_all add: acquire_def)
  from assms show ?thesis
    unfolding bget_bucket_def Let_def c u n
    by (auto simp: acquire_def release_def claim_def split: option.splits)
qed

lemma bget_bucket_None:
  assumes "bget_bucket f d blk s = Return None s'"
  shows "find_cached f s (Head (bucket_of blk)) d blk (nextp s (Head (bucket_of blk))) = Some None \<and>
         find_unused f s (Head (bucket_of blk)) (prevp s (Head (bucket_of blk))) = Some None \<and>
         s' = s\<lparr>trace := trace s @ [Acquire (Bucket (bucket_of blk)), Release (Bucket (bucket_of blk))]\<rparr>"
proof -
  let ?s1 = "acquire (Bucket (bucket_of blk)) s"
  have c: "find_cached f ?s1 h d blk b0 = find_cached f s h d blk b0" for h b0
    by (rule find_cached_cong) (simp_all add: acquire_def)
  have u: "find_unused f ?s1 h b0 = find_unused f s h b0" for h b0
    by (rule find_unused_cong) (simp_all add: acquire_def)
  have n: "nextp ?s1 = nextp s" "prevp ?s1 = prevp s"
    by (simp_all add: acquire_def)
  from assms show ?thesis
    unfolding bget_bucket_def Let_def c u n
    by (auto simp: acquire_def release_def split: option.splits)
qed


lemma bget_steal_Return:
  assumes "bget_steal n d blk s = Return b s'"
  shows "\<exists>j pre. j < n \<and> b = Buf j \<and>
      bucket_of (blockno s b) \<noteq> bucket_of blk \<and> refcnt s b = 0 \<and>
      (\<forall>k<j. bucket_of (blockno s (Buf k)) = bucket_of blk \<or> refcnt s (Buf k) \<noteq> 0) \<and>
      probes (bucket_of blk) pre \<and>
      s' = (insert_head (Head (bucket_of blk)) b (unlink b (claim d blk b s)))
             \<lparr>trace := trace s @ [Acquire Global, Acquire (Bucket (bucket_of blk))] @ pre @
                [Acquire (Bucket (bucket_of (blockno s b))),
                 Release (Bucket (bucket_of (blockno s b))),
                 Release (Bucket (bucket_of blk)), Release Global]\<rparr>"
proof -
  let ?s0 = "acquire (Bucket (bucket_of blk)) (acquire Global s)"
  have s0: "?s0 = s\<lparr>trace := trace s @ [Acquire Global, Acquire (Bucket (bucket_of blk))]\<rparr>"
    by (simp add: acquire_def)
  from assms have "steal_scan (bucket_of blk) d blk [0..<n] ?s0 = Return b s'"
    by (simp add: bget_steal_def Let_def)
  from steal_scan_Return [OF this] obtain js1 j js2 pre where
    h: "[0..<n] = js1 @ j # js2" "b = Buf j"
       "bucket_of (blockno ?s0 b) \<noteq> bucket_of blk" "refcnt ?s0 b = 0"
       "\<forall>k\<in>set js1. bucket_of (blockno ?s0 (Buf k)) = bucket_of blk \<or> refcnt ?s0 (Buf k) \<noteq> 0"
       "probes (bucket_of blk) pre"
       "s' = (insert_head (Head (bucket_of blk)) b (unlink b (claim d blk b ?s0)))
             \<lparr>trace := trace ?s0 @ pre @
                [Acquire (Bucket (bucket_of (blockno ?s0 b))),
                 Release (Bucket (bucket_of (blockno ?s0 b))),
                 Release (Bucket (bucket_of blk)), Release Global]\<rparr>"
    by blast
  have len: "j = length js1"
  proof -
    have "length js1 < length [0..<n]" using h(1) by simp
    then have "[0..<n] ! length js1 = length js1" by simp
    then show ?thesis using h(1) by simp
  qed
  have jn: "j < n"
  proof -
    have "j \<in> set [0..<n]" using h(1) by simp
    then show ?thesis by simp
  qed
  have js1: "set js1 = {..<j}"
  proof -
    have "js1 = take j [0..<n]" using h(1) len by simp
    then show ?thesis using jn by (simp add: take_upt) auto
  qed
  show ?thesis
    apply (rule exI [of _ j], rule exI [of _ pre])
    using h jn js1 unfolding s0
    by (simp add: trace_commute)
qed


lemma bget_steal_cases:
  "(\<exists>b s'. bget_steal n d blk s = Return b s') \<or> (\<exists>m s'. bget_steal n d blk s = Panic m s')"
  unfolding bget_steal_def Let_def by (rule steal_scan_cases)

subsection \<open>What bget returns\<close>

lemma list_ops_fields:
  "dev (unlink b s) = dev s" "blockno (unlink b s) = blockno s" "refcnt (unlink b s) = refcnt s"
  "valid (unlink b s) = valid s" "holder (unlink b s) = holder s" "trace (unlink b s) = trace s"
  "data (unlink b s) = data s" "io (unlink b s) = io s" "disk (unlink b s) = disk s"
  "dev (insert_head h b s) = dev s" "blockno (insert_head h b s) = blockno s"
  "refcnt (insert_head h b s) = refcnt s" "valid (insert_head h b s) = valid s"
  "holder (insert_head h b s) = holder s" "trace (insert_head h b s) = trace s"
  "data (insert_head h b s) = data s" "io (insert_head h b s) = io s"
  "disk (insert_head h b s) = disk s"
  by (simp_all add: unlink_def insert_head_def Let_def)

lemma claim_fields:
  "dev (claim d blk b s) = (dev s)(b := d)" "blockno (claim d blk b s) = (blockno s)(b := blk)"
  "refcnt (claim d blk b s) = (refcnt s)(b := 1)" "valid (claim d blk b s) = (valid s)(b := False)"
  "holder (claim d blk b s) = holder s" "trace (claim d blk b s) = trace s"
  "nextp (claim d blk b s) = nextp s" "prevp (claim d blk b s) = prevp s"
  "data (claim d blk b s) = data s" "io (claim d blk b s) = io s" "disk (claim d blk b s) = disk s"
  by (simp_all add: claim_def)

text \<open>What \<^verbatim>\<open>bget\<close> has done to the buffer it returns, before the sleep lock.\<close>

lemma bget_reserve_Return:
  assumes "bget_reserve f n d blk s = Return b s'"
  shows "dev s' b = d \<and> blockno s' b = blk \<and> holder s' = holder s \<and>
         (refcnt s' b = 1 \<and> refcnt s b = 0 \<or>
          refcnt s' b = refcnt s b + 1 \<and> dev s b = d \<and> blockno s b = blk)"
proof (cases "bget_bucket f d blk s")
  case (Return r s1)
  show ?thesis
  proof (cases r)
    case None
    with Return assms have "bget_steal n d blk s1 = Return b s'"
      by (simp add: bget_reserve_def)
    from bget_steal_Return [OF this] bget_bucket_None [OF Return [unfolded None]]
    show ?thesis
      by (auto simp: list_ops_fields claim_fields)
  next
    case (Some b')
    with Return assms have eq: "b' = b" "s1 = s'"
      by (simp_all add: bget_reserve_def)
    from bget_bucket_Some [OF Return [unfolded Some eq]]
    show ?thesis
      by (auto simp: claim_fields dest: find_cached_Some find_unused_Some)
  qed
qed (use assms in \<open>simp_all add: bget_reserve_def\<close>)

lemma bget_Return:
  "bget f n p d blk s = Return b s' \<Longrightarrow>
   \<exists>s1. bget_reserve f n d blk s = Return b s1 \<and> holder s1 b = None \<and>
        s' = s1\<lparr>holder := (holder s1)(b := Some p)\<rparr>"
  by (auto simp: bget_def acquiresleep_def split: outcome.splits option.splits if_splits)




subsection \<open>The pool scan skips the target bucket\<close>



lemma value_of_Return: "value_of r = Some x \<Longrightarrow> r = Return x (state_of r)"
  by (cases r) simp_all



subsection \<open>The global lock is the outermost\<close>







subsection \<open>The ownership check of brelse and bwrite\<close>

text \<open>
  C8.  \<^verbatim>\<open>brelse\<close> and \<^verbatim>\<open>bwrite\<close> panic when the caller does not hold the sleep lock of
  the buffer, in the very state in which they were called (no decrement, no relinking, no
  disk write); when the caller holds it, both return.
\<close>

theorem token_check:
  "(\<not> holdingsleep p b s \<longrightarrow>
      brelse p b s = Panic ''brelse'' s \<and> bwrite p b s = Panic ''bwrite'' s) \<and>
   (holdingsleep p b s \<longrightarrow>
      (\<exists>s'. brelse p b s = Return () s') \<and> (\<exists>s'. bwrite p b s = Return () s'))"
  by (simp add: brelse_def bwrite_def Let_def)

text \<open>Buffer 0 is held by process 7: process 8 panics on it, process 7 does not.\<close>

theorem token_check_witness:
  "brelse 8 (Buf 0) held0 = Panic ''brelse'' held0 \<and>
   bwrite 8 (Buf 0) held0 = Panic ''bwrite'' held0 \<and>
   value_of (brelse 7 (Buf 0) held0) = Some () \<and>
   value_of (bwrite 7 (Buf 0) held0) = Some ()"
proof -
  have h: "holder held0 (Buf 0) = Some 7" by code_simp
  then have 7: "holdingsleep 7 (Buf 0) held0" and 8: "\<not> holdingsleep 8 (Buf 0) held0"
    by (simp_all add: holdingsleep_def)
  from token_check [of 8 "Buf 0" held0] token_check [of 7 "Buf 0" held0] 7 8
  show ?thesis by auto
qed

subsection \<open>The reference count wraps\<close>

text \<open>
  C10 (amended).  \<^verbatim>\<open>bunpin\<close> on a buffer whose reference count is 0 wraps the count to
  \<open>2^32 - 1\<close>, and so does the decrement of \<^verbatim>\<open>brelse\<close> once the ownership check has
  passed.  In the state that \<^verbatim>\<open>bunpin\<close> leaves, no \<^verbatim>\<open>bget\<close> for another block gives
  the buffer away.
\<close>

theorem unguarded_decrement:
  "refcnt s b = 0 \<Longrightarrow>
     refcnt (bunpin b s) b = 0xFFFFFFFF \<and>
     (holdingsleep p b s \<longrightarrow>
        (\<exists>s'. brelse p b s = Return () s' \<and> refcnt s' b = 0xFFFFFFFF)) \<and>
     (\<forall>f n d blk b' s'. bget_reserve f n d blk (bunpin b s) = Return b' s' \<and>
        (dev s b \<noteq> d \<or> blockno s b \<noteq> blk) \<longrightarrow> b' \<noteq> b)"
proof (intro conjI allI impI)
  assume z: "refcnt s b = 0"
  then show "refcnt (bunpin b s) b = 0xFFFFFFFF"
    by (simp add: bunpin_def Let_def acquire_def release_def)
  show "\<exists>s'. brelse p b s = Return () s' \<and> refcnt s' b = 0xFFFFFFFF" if "holdingsleep p b s"
    using that z
    by (simp add: brelse_def Let_def acquire_def release_def releasesleep_def)
  fix f n d blk b' s'
  assume a: "bget_reserve f n d blk (bunpin b s) = Return b' s' \<and>
        (dev s b \<noteq> d \<or> blockno s b \<noteq> blk)"
  have u: "refcnt (bunpin b s) b = 0xFFFFFFFF" "dev (bunpin b s) = dev s"
      "blockno (bunpin b s) = blockno s"
    using z by (simp_all add: bunpin_def Let_def acquire_def release_def)
  show "b' \<noteq> b"
  proof
    assume "b' = b"
    with a bget_reserve_Return [of f n d blk "bunpin b s" b s'] u
    show False by auto
  qed
qed

text \<open>
  Process 7 holds buffer 0 and a first \<^verbatim>\<open>bunpin\<close> has brought its count to 0.
\<close>

theorem unguarded_decrement_witness:
  "refcnt (bunpin (Buf 0) held0) (Buf 0) = 0 \<and>
   holdingsleep 7 (Buf 0) (bunpin (Buf 0) held0) \<and>
   refcnt (bunpin (Buf 0) (bunpin (Buf 0) held0)) (Buf 0) = 0xFFFFFFFF \<and>
   refcnt (state_of (brelse 7 (Buf 0) (bunpin (Buf 0) held0))) (Buf 0) = 0xFFFFFFFF"
proof -
  have f: "fields (bunpin (Buf 0) held0) (Buf 0) = (1, 13, False, 0, Some 7)" by code_simp
  then have z: "refcnt (bunpin (Buf 0) held0) (Buf 0) = 0"
    and h: "holdingsleep 7 (Buf 0) (bunpin (Buf 0) held0)"
    by (simp_all add: fields_def holdingsleep_def)
  from unguarded_decrement [OF z, of 7] h
  obtain s' where "brelse 7 (Buf 0) (bunpin (Buf 0) held0) = Return () s'"
    "refcnt s' (Buf 0) = 0xFFFFFFFF" "refcnt (bunpin (Buf 0) (bunpin (Buf 0) held0)) (Buf 0) = 0xFFFFFFFF"
    by blast
  with z h show ?thesis by simp
qed

text \<open>
  C10 as stated fails in its "never again": after the wrap, one \<^verbatim>\<open>bpin\<close> brings the
  count of buffer 0 (block 13) back to 0, and once the two other buffers of bucket 0 are
  taken, \<^verbatim>\<open>bget(1, 52)\<close> recycles buffer 0 for block 52.
\<close>

theorem evictable_again_counterexample:
  "fields wrapped0 (Buf 0) = (1, 13, False, 0xFFFFFFFF, None) \<and>
   refcnt (bpin (Buf 0) wrapped0) (Buf 0) = 0 \<and>
   outcome_at (bget 31 30 10 1 52 rewrapped0) (Buf 0) =
     (Some (Buf 0), None, (1, 52, False, 1, Some 10))"
  by code_simp

subsection \<open>bunpin does not relink\<close>



subsection \<open>Running out of buffers\<close>

text \<open>
  C5 at its failing input.  After boot, three processes hold blocks 13, 26 and 39, the
  three buffers of bucket 0.  \<^verbatim>\<open>bget(1, 52)\<close> then panics with "bget: no buffers",
  although buffer 1 (as 26 others) has a reference count of 0: its stale block number 0
  hashes to bucket 0, so the pool scan skips it.
\<close>

theorem no_buffers_with_free_buffers:
  "outcome_at (bget 31 30 10 1 52 full0) (Buf 1) =
     (None, Some ''bget: no buffers'', (0, 0, False, 0, None))"
  by code_simp

subsection \<open>A cached block is read once\<close>

lemma insert_head_next: "nextp (insert_head h b s) h = b"
  by (simp add: insert_head_def Let_def)

lemma find_cached_at_head:
  "nextp s h = b \<Longrightarrow> b \<noteq> h \<Longrightarrow> dev s b = d \<Longrightarrow> blockno s b = blk \<Longrightarrow> 0 < f \<Longrightarrow>
   find_cached f s h d blk (nextp s h) = Some (Some b)"
  by (cases f) simp_all

lemma find_cached_fuel: "find_cached f s h d blk b0 = Some r \<Longrightarrow> 0 < f"
  by (cases f) simp_all

lemma brelse_Return:
  assumes "brelse p b s = Return () s'"
  shows "holdingsleep p b s \<and> dev s' = dev s \<and> blockno s' = blockno s \<and>
     valid s' = valid s \<and> data s' = data s \<and> disk s' = disk s \<and> io s' = io s \<and>
     holder s' = (holder s)(b := None) \<and> refcnt s' = (refcnt s)(b := refcnt s b - 1) \<and>
     (if refcnt s b = 1 then nextp s' (Head (bucket_of (blockno s b))) = b
      else nextp s' = nextp s \<and> prevp s' = prevp s)"
proof -
  from assms have h: "holdingsleep p b s"
    by (auto simp: brelse_def split: if_splits)
  have e: "refcnt s b - 1 = 0 \<longleftrightarrow> refcnt s b = 1"
    by auto
  from assms h show ?thesis
    by (cases "refcnt s b = 1")
       (auto simp: brelse_def Let_def releasesleep_def acquire_def release_def
          list_ops_fields insert_head_next e)
qed

text \<open>A hit: what \<^verbatim>\<open>bread\<close> returns when the block is found in its bucket.\<close>

lemma bread_hit:
  assumes c: "find_cached f s (Head (bucket_of blk)) d blk (nextp s (Head (bucket_of blk))) = Some (Some b)"
    and h: "holder s b = None"
  shows "bread f n p d blk s =
     Return b (if valid s b
       then s\<lparr>refcnt := (refcnt s)(b := refcnt s b + 1),
              trace := trace s @ [Acquire (Bucket (bucket_of blk)), Release (Bucket (bucket_of blk))],
              holder := (holder s)(b := Some p)\<rparr>
       else s\<lparr>refcnt := (refcnt s)(b := refcnt s b + 1),
              trace := trace s @ [Acquire (Bucket (bucket_of blk)), Release (Bucket (bucket_of blk))],
              holder := (holder s)(b := Some p),
              data := (data s)(b := disk s (dev s b, blockno s b)),
              io := io s @ [DiskRead (dev s b) (blockno s b)],
              valid := (valid s)(b := True)\<rparr>)"
proof -
  let ?s1 = "acquire (Bucket (bucket_of blk)) s"
  have c1: "find_cached f ?s1 (Head (bucket_of blk)) d blk (nextp ?s1 (Head (bucket_of blk))) = Some (Some b)"
    using c find_cached_cong [of ?s1 s f "Head (bucket_of blk)" d blk]
    by (simp add: acquire_def)
  have bb: "bget_bucket f d blk s = Return (Some b)
       (s\<lparr>refcnt := (refcnt s)(b := refcnt s b + 1),
          trace := trace s @ [Acquire (Bucket (bucket_of blk)), Release (Bucket (bucket_of blk))]\<rparr>)"
    unfolding bget_bucket_def Let_def c1
    by (simp add: acquire_def release_def)
  show ?thesis
    unfolding bread_def bget_def bget_reserve_def bb
    using h by (simp add: acquiresleep_def virtio_disk_rw_def Let_def)
qed

lemma bread_sleeps_or_returns_held:
  assumes c: "find_cached f s (Head (bucket_of blk)) d blk (nextp s (Head (bucket_of blk))) = Some (Some b)"
    and r: "bread f n p d blk s = Return b1 s1"
  shows "holder s b = None"
proof -
  let ?s1 = "acquire (Bucket (bucket_of blk)) s"
  have c1: "find_cached f ?s1 (Head (bucket_of blk)) d blk (nextp ?s1 (Head (bucket_of blk))) = Some (Some b)"
    using c find_cached_cong [of ?s1 s f "Head (bucket_of blk)" d blk]
    by (simp add: acquire_def)
  have bb: "bget_bucket f d blk s = Return (Some b)
       (s\<lparr>refcnt := (refcnt s)(b := refcnt s b + 1),
          trace := trace s @ [Acquire (Bucket (bucket_of blk)), Release (Bucket (bucket_of blk))]\<rparr>)"
    unfolding bget_bucket_def Let_def c1
    by (simp add: acquire_def release_def)
  from r show ?thesis
    unfolding bread_def bget_def bget_reserve_def bb
    by (auto simp: acquiresleep_def split: if_splits)
qed

text \<open>
  C9.  Starting where block \<open>blk\<close> of device \<open>d\<close> is cached (for the claim, block 5):
  after a \<^verbatim>\<open>bread\<close> that returns buffer \<open>b\<close>, a change of its data to \<open>x\<close>, \<^verbatim>\<open>bwrite\<close>
  and \<^verbatim>\<open>brelse\<close>, a second \<^verbatim>\<open>bread\<close> of the block returns the same buffer, valid, with
  the data \<open>x\<close> (which the disk holds too), and without any call of \<^verbatim>\<open>virtio_disk_rw\<close>.
\<close>

theorem cached_block_read_once:
  assumes c: "cached f s d blk"
    and r1: "bread f n p d blk s = Return b s1"
    and w: "bwrite p b (s1\<lparr>data := (data s1)(b := x)\<rparr>) = Return () s3"
    and r: "brelse p b s3 = Return () s4"
  shows "\<exists>s5. bread f n p d blk s4 = Return b s5 \<and> valid s5 b \<and> data s5 b = x \<and>
           io s5 = io s4 \<and> disk s5 (d, blk) = x"
proof -
  let ?h = "Head (bucket_of blk)"
  from c obtain b0 where
    c0: "find_cached f s ?h d blk (nextp s ?h) = Some (Some b0)"
    by (auto simp: cached_def split: option.splits)
  have h0: "holder s b0 = None"
    by (rule bread_sleeps_or_returns_held [OF c0 r1])
  from r1 bread_hit [OF c0 h0, of n p] have bb: "b0 = b" by simp
  note c0 = c0 [unfolded bb] and h0 = h0 [unfolded bb]
  from find_cached_Some [OF c0] have id: "dev s b = d" "blockno s b = blk" "b \<noteq> ?h"
    by simp_all
  have f0: "0 < f" by (rule find_cached_fuel [OF c0])
  from r1 bread_hit [OF c0 h0, of n p] have
    s1: "dev s1 = dev s" "blockno s1 = blockno s" "nextp s1 = nextp s"
        "holder s1 = (holder s)(b := Some p)" "valid s1 b"
    by (auto split: if_splits)
  let ?s2 = "s1\<lparr>data := (data s1)(b := x)\<rparr>"
  have hold2: "holdingsleep p b ?s2" using s1 by (simp add: holdingsleep_def)
  from w hold2 have s3: "s3 = virtio_disk_rw b True ?s2"
    by (simp add: bwrite_def)
  have s3f: "dev s3 = dev s" "blockno s3 = blockno s" "nextp s3 = nextp s"
        "holder s3 = (holder s)(b := Some p)" "valid s3 b" "data s3 b = x"
        "disk s3 (d, blk) = x"
    unfolding s3 using s1 id by (simp_all add: virtio_disk_rw_def)
  have hold3: "holdingsleep p b s3" using s3f by (simp add: holdingsleep_def)
  from brelse_Return [OF r] s3f have
    s4f: "dev s4 = dev s" "blockno s4 = blockno s" "holder s4 b = None" "valid s4 b"
       "data s4 b = x" "disk s4 (d, blk) = x"
    by simp_all
  have hit: "find_cached f s4 ?h d blk (nextp s4 ?h) = Some (Some b)"
  proof (cases "refcnt s3 b = 1")
    case True
    with brelse_Return [OF r] s3f id have "nextp s4 ?h = b"
      by simp
    then show ?thesis
      using id s4f f0 by (intro find_cached_at_head) simp_all
  next
    case False
    with brelse_Return [OF r] s3f have n4: "nextp s4 = nextp s"
      by simp
    have "find_cached f s4 ?h d blk (nextp s ?h) = find_cached f s ?h d blk (nextp s ?h)"
      by (rule find_cached_cong) (simp_all add: s4f n4)
    with c0 n4 show ?thesis by simp
  qed
  from bread_hit [OF hit s4f(3), of n p] s4f
  show ?thesis by simp
qed

text \<open>Block 5 of device 1, cached in buffer 5; process 7 writes the bytes 1, 2, 3.\<close>

theorem cached_block_read_once_witness:
  "cached 31 cached5 1 5 \<and>
   value_of (bread 31 30 7 1 5 cached5) = Some (Buf 5) \<and>
   value_of (bwrite 7 (Buf 5)
     ((state_of (bread 31 30 7 1 5 cached5))
        \<lparr>data := (data (state_of (bread 31 30 7 1 5 cached5)))(Buf 5 := [1, 2, 3])\<rparr>)) = Some () \<and>
   (\<exists>s3 s4 s5.
      bwrite 7 (Buf 5)
        ((state_of (bread 31 30 7 1 5 cached5))
           \<lparr>data := (data (state_of (bread 31 30 7 1 5 cached5)))(Buf 5 := [1, 2, 3])\<rparr>)
        = Return () s3 \<and>
      brelse 7 (Buf 5) s3 = Return () s4 \<and>
      bread 31 30 7 1 5 s4 = Return (Buf 5) s5 \<and> valid s5 (Buf 5) \<and>
      data s5 (Buf 5) = [1, 2, 3] \<and> io s5 = io s4)"
proof -
  let ?s1 = "state_of (bread 31 30 7 1 5 cached5)"
  let ?s2 = "?s1\<lparr>data := (data ?s1)(Buf 5 := [1, 2, 3])\<rparr>"
  have c: "cached 31 cached5 1 5" by code_simp
  have v: "value_of (bread 31 30 7 1 5 cached5) = Some (Buf 5)" by code_simp
  have r1: "bread 31 30 7 1 5 cached5 = Return (Buf 5) ?s1"
    by (rule value_of_Return [OF v])
  have h: "holder ?s1 (Buf 5) = Some 7" by code_simp
  then have h2: "holdingsleep 7 (Buf 5) ?s2" by (simp add: holdingsleep_def)
  then have w: "bwrite 7 (Buf 5) ?s2 = Return () (virtio_disk_rw (Buf 5) True ?s2)"
    by (simp add: bwrite_def)
  let ?s3 = "virtio_disk_rw (Buf 5) True ?s2"
  have h3: "holdingsleep 7 (Buf 5) ?s3"
    using h by (simp add: holdingsleep_def virtio_disk_rw_def)
  then obtain s4 where r: "brelse 7 (Buf 5) ?s3 = Return () s4"
    by (auto simp: brelse_def Let_def)
  from cached_block_read_once [OF c r1 w r] obtain s5 where
    "bread 31 30 7 1 5 s4 = Return (Buf 5) s5" "valid s5 (Buf 5)"
    "data s5 (Buf 5) = [1, 2, 3]" "io s5 = io s4"
    by blast
  with c v w r show ?thesis by auto
qed

subsection \<open>Doubly linked rings\<close>

lemma linked_Nil [simp]: "linked nx pv []" and linked_single [simp]: "linked nx pv [x]"
  by (simp_all add: linked_def)

lemma linked_Cons2 [simp]:
  "linked nx pv (x # y # ys) = (nx x = y \<and> pv y = x \<and> linked nx pv (y # ys))"
  by (simp add: linked_def)

lemma linked_append:
  "linked nx pv (xs @ ys) =
     (linked nx pv xs \<and> linked nx pv ys \<and>
      (xs = [] \<or> ys = [] \<or> (nx (last xs) = hd ys \<and> pv (hd ys) = last xs)))"
  by (simp add: linked_def successively_append_iff)

lemma linked_cong:
  "linked nx pv ys \<Longrightarrow> (\<And>x. x \<in> set (butlast ys) \<Longrightarrow> nx' x = nx x) \<Longrightarrow>
   (\<And>y. y \<in> set (tl ys) \<Longrightarrow> pv' y = pv y) \<Longrightarrow> linked nx' pv' ys"
proof (induction ys rule: induct_list012)
  case (3 x y zs)
  from "3.prems"(1) have l: "nx x = y" "pv y = x" "linked nx pv (y # zs)" by simp_all
  have "linked nx' pv' (y # zs)"
  proof (rule "3.IH"(2) [OF l(3)])
    fix u assume "u \<in> set (butlast (y # zs))"
    then show "nx' u = nx u" using "3.prems"(2) [of u] by simp
  next
    fix u assume "u \<in> set (tl (y # zs))"
    then show "pv' u = pv u" using "3.prems"(3) [of u] by simp
  qed
  moreover have "nx' x = y" using "3.prems"(2) [of x] l by simp
  moreover have "pv' y = x" using "3.prems"(3) [of y] l by simp
  ultimately show ?case by simp
qed simp_all

lemma ring_cong:
  assumes "ring nx pv h xs" and "\<And>x. x \<in> set (h # xs) \<Longrightarrow> nx' x = nx x \<and> pv' x = pv x"
  shows "ring nx' pv' h xs"
proof -
  from assms(1) have d: "distinct (h # xs)" and l: "linked nx pv (h # xs @ [h])"
    by (simp_all add: ring_def)
  have "linked nx' pv' (h # xs @ [h])"
  proof (rule linked_cong [OF l])
    fix x assume "x \<in> set (butlast (h # xs @ [h]))"
    then have "x \<in> set (h # xs)" by (simp add: butlast_append)
    then show "nx' x = nx x" using assms(2) by blast
  next
    fix y assume "y \<in> set (tl (h # xs @ [h]))"
    then have "y \<in> set (h # xs)" by auto
    then show "pv' y = pv y" using assms(2) by blast
  qed
  with d show ?thesis by (simp add: ring_def)
qed

lemma ring_head: "ring nx pv h xs \<Longrightarrow> nx h = hd (xs @ [h]) \<and> pv h = last (h # xs)"
proof -
  assume r: "ring nx pv h xs"
  then have l: "linked nx pv ((h # xs) @ [h])" by (simp add: ring_def)
  have 1: "nx h = hd (xs @ [h])"
    using r by (cases xs) (simp_all add: ring_def)
  from l have "pv (hd [h]) = last (h # xs)"
    unfolding linked_append [of nx pv "h # xs" "[h]"] by simp
  with 1 show ?thesis by simp
qed

text \<open>The links around an element of a ring.\<close>

lemma ring_split:
  assumes "ring nx pv h (us @ b # vs)"
  shows "nx (last (h # us)) = b \<and> pv b = last (h # us) \<and>
         nx b = hd (vs @ [h]) \<and> pv (hd (vs @ [h])) = b"
proof -
  from assms have l: "linked nx pv ((h # us) @ (b # vs @ [h]))" by (simp add: ring_def)
  from l have a: "nx (last (h # us)) = b" "pv b = last (h # us)" and
    l2: "linked nx pv (b # vs @ [h])"
    unfolding linked_append [of nx pv "h # us" "b # vs @ [h]"] by simp_all
  from l2 have "nx b = hd (vs @ [h]) \<and> pv (hd (vs @ [h])) = b"
    by (cases vs) simp_all
  with a show ?thesis by simp
qed

lemma ring_unlink:
  assumes r: "ring nx pv h (us @ b # vs)"
  shows "ring (nx(pv b := nx b)) (pv(nx b := pv b)) h (us @ vs)"
proof -
  let ?a = "last (h # us)" and ?c = "hd (vs @ [h])"
  from ring_split [OF r] have ab: "nx ?a = b" "pv b = ?a" "nx b = ?c" "pv ?c = b"
    by simp_all
  from r have d: "distinct (h # us @ b # vs)" by (simp add: ring_def)
  from r have l: "linked nx pv ((h # us) @ (b # vs @ [h]))" by (simp add: ring_def)
  then have l1: "linked nx pv (h # us)" and l2': "linked nx pv (b # vs @ [h])"
    unfolding linked_append [of nx pv "h # us" "b # vs @ [h]"] by simp_all
  from l2' have l2: "linked nx pv (vs @ [h])"
    by (cases vs) simp_all
  let ?nx = "nx(?a := ?c)" and ?pv = "pv(?c := ?a)"
  have a_in: "?a \<in> set (h # us)" by simp
  have c_in: "?c \<in> set (vs @ [h])" by (cases vs) simp_all
  have m1: "linked ?nx ?pv (h # us)"
  proof (rule linked_cong [OF l1])
    fix x assume x: "x \<in> set (butlast (h # us))"
    have e: "butlast (h # us) @ [last (h # us)] = h # us"
      by (rule append_butlast_last_id) simp
    have "distinct (butlast (h # us) @ [last (h # us)])"
      unfolding e using d by simp
    with x have "x \<noteq> ?a" by auto
    then show "?nx x = nx x" by simp
  next
    fix y assume "y \<in> set (tl (h # us))"
    then have "y \<in> set us" by simp
    with d c_in have "y \<noteq> ?c" by (cases vs) auto
    then show "?pv y = pv y" by simp
  qed
  have m2: "linked ?nx ?pv (vs @ [h])"
  proof (rule linked_cong [OF l2])
    fix x assume "x \<in> set (butlast (vs @ [h]))"
    then have "x \<in> set vs" by (simp add: butlast_append)
    with d a_in have "x \<noteq> ?a" by auto
    then show "?nx x = nx x" by simp
  next
    fix y assume y: "y \<in> set (tl (vs @ [h]))"
    have "y \<noteq> ?c"
    proof (cases vs)
      case Nil with y show ?thesis by simp
    next
      case (Cons v vs')
      with y d show ?thesis by auto
    qed
    then show "?pv y = pv y" by simp
  qed
  have "linked ?nx ?pv ((h # us) @ (vs @ [h]))"
    unfolding linked_append [of ?nx ?pv "h # us" "vs @ [h]"]
    using m1 m2 by simp
  with d show ?thesis
    unfolding ab by (simp add: ring_def)
qed

lemma ring_insert:
  assumes r: "ring nx pv h ys" and b: "b \<notin> set (h # ys)"
  shows "ring (nx(b := nx h, h := b)) (pv(b := h, nx h := b)) h (b # ys)"
proof -
  let ?d = "hd (ys @ [h])"
  from ring_head [OF r] have nh: "nx h = ?d" by simp
  from r have d: "distinct (h # ys)" and l: "linked nx pv (h # ys @ [h])"
    by (simp_all add: ring_def)
  from l have l2: "linked nx pv (ys @ [h])" by (cases ys) simp_all
  let ?nx = "nx(b := ?d, h := b)" and ?pv = "pv(b := h, ?d := b)"
  have d_in: "?d \<in> set (ys @ [h])" by (cases ys) simp_all
  with b have bd: "b \<noteq> ?d" by auto
  have m: "linked ?nx ?pv (ys @ [h])"
  proof (rule linked_cong [OF l2])
    fix x assume "x \<in> set (butlast (ys @ [h]))"
    then have "x \<in> set ys" by (simp add: butlast_append)
    with d b have "x \<noteq> h" "x \<noteq> b" by auto
    then show "?nx x = nx x" by simp
  next
    fix y assume y: "y \<in> set (tl (ys @ [h]))"
    have "y \<noteq> ?d"
    proof (cases ys)
      case Nil with y show ?thesis by simp
    next
      case (Cons v vs')
      with y d show ?thesis by auto
    qed
    moreover have "y \<noteq> b" using y b by (cases ys) auto
    ultimately show "?pv y = pv y" by simp
  qed
  have "linked ?nx ?pv (h # b # ys @ [h])"
  proof -
    have 1: "?nx h = b" by simp
    have 2: "?pv b = h" using bd by simp
    have 3: "?nx b = ?d" using b by auto
    have 4: "?pv ?d = b" by simp
    have "linked ?nx ?pv (b # ys @ [h])"
      using m 3 4 by (cases ys) simp_all
    with 1 2 show ?thesis by simp
  qed
  with d b show ?thesis
    unfolding nh by (auto simp: ring_def)
qed

lemma unlink_ptrs:
  "nextp (unlink b s) = (nextp s)(prevp s b := nextp s b)"
  "prevp (unlink b s) = (prevp s)(nextp s b := prevp s b)"
  by (simp_all add: unlink_def Let_def)

lemma insert_head_ptrs:
  "nextp (insert_head h b s) = (nextp s)(b := nextp s h, h := b)"
  "prevp (insert_head h b s) = (prevp s)(b := h, nextp s h := b)"
  by (auto simp: insert_head_def Let_def)

subsection \<open>The lists of the buckets\<close>

lemma lists_nodes_disjoint:
  assumes "lists_of P nx pv \<alpha>" "i < NBUCKETS" "k < NBUCKETS" "i \<noteq> k"
  shows "set (Head i # \<alpha> i) \<inter> set (Head k # \<alpha> k) = {}"
proof -
  from assms have d: "set (\<alpha> i) \<inter> set (\<alpha> k) = {}"
    by (simp add: lists_of_def)
  from assms have "set (\<alpha> i) \<subseteq> range Buf" "set (\<alpha> k) \<subseteq> range Buf"
    by (auto simp: lists_of_def)
  then have "Head k \<notin> set (\<alpha> i)" "Head i \<notin> set (\<alpha> k)" by auto
  with d assms(4) show ?thesis by auto
qed

lemma lists_member:
  "lists_of P nx pv \<alpha> \<Longrightarrow> b \<in> P \<Longrightarrow> \<exists>i<NBUCKETS. b \<in> set (\<alpha> i)"
  by (auto simp: lists_of_def)

lemma lists_unlink:
  assumes l: "lists_of P nx pv \<alpha>" and b: "b \<in> P"
  shows "lists_of (P - {b}) (nx(pv b := nx b)) (pv(nx b := pv b)) (\<lambda>i. removeAll b (\<alpha> i))"
proof -
  let ?nx = "nx(pv b := nx b)" and ?pv = "pv(nx b := pv b)"
  from lists_member [OF l b] obtain i where i: "i < NBUCKETS" "b \<in> set (\<alpha> i)" by blast
  from l i have ri: "ring nx pv (Head i) (\<alpha> i)" by (simp add: lists_of_def)
  from i(2) obtain us vs where uv: "\<alpha> i = us @ b # vs" by (auto dest: split_list)
  from ri have di: "distinct (\<alpha> i)" by (simp add: ring_def)
  have rem: "removeAll b (\<alpha> i) = us @ vs"
    using di unfolding uv by (simp add: removeAll_id)
  from ring_split [OF ri [unfolded uv]] have
    pb: "pv b = last (Head i # us)" and nb: "nx b = hd (vs @ [Head i])" by simp_all
  have pin: "pv b \<in> set (Head i # \<alpha> i)" unfolding pb uv by auto
  have nin: "nx b \<in> set (Head i # \<alpha> i)" unfolding nb uv by (cases vs) auto
  have rings: "ring ?nx ?pv (Head k) (removeAll b (\<alpha> k))" if k: "k < NBUCKETS" for k
  proof (cases "k = i")
    case True
    show ?thesis
      unfolding True rem using ring_unlink [OF ri [unfolded uv]] .
  next
    case False
    from lists_nodes_disjoint [OF l i(1) k] False
    have dj: "set (Head i # \<alpha> i) \<inter> set (Head k # \<alpha> k) = {}" by blast
    with i(2) have "b \<notin> set (\<alpha> k)" by auto
    then have e: "removeAll b (\<alpha> k) = \<alpha> k" by (rule removeAll_id)
    from l k have rk: "ring nx pv (Head k) (\<alpha> k)" by (simp add: lists_of_def)
    show ?thesis
      unfolding e
    proof (rule ring_cong [OF rk])
      fix x assume "x \<in> set (Head k # \<alpha> k)"
      with dj pin nin have "x \<noteq> pv b" "x \<noteq> nx b" by auto
      then show "?nx x = nx x \<and> ?pv x = pv x" by simp
    qed
  qed
  have dis: "set (removeAll b (\<alpha> j)) \<inter> set (removeAll b (\<alpha> k)) = {}"
    if "j < NBUCKETS" "k < NBUCKETS" "j \<noteq> k" for j k
    using l that by (auto simp: lists_of_def)
  have un: "(\<Union>k<NBUCKETS. set (removeAll b (\<alpha> k))) = P - {b}"
    using l by (auto simp: lists_of_def)
  from l have "P - {b} \<subseteq> range Buf" by (auto simp: lists_of_def)
  with rings dis un show ?thesis
    unfolding lists_of_def by blast
qed

lemma lists_insert:
  assumes l: "lists_of P nx pv \<alpha>" and b: "b \<in> range Buf" "b \<notin> P" and i: "i < NBUCKETS"
  shows "lists_of (insert b P) (nx(b := nx (Head i), Head i := b))
           (pv(b := Head i, nx (Head i) := b)) (\<alpha>(i := b # \<alpha> i))"
proof -
  let ?nx = "nx(b := nx (Head i), Head i := b)" and ?pv = "pv(b := Head i, nx (Head i) := b)"
  from l i have ri: "ring nx pv (Head i) (\<alpha> i)" by (simp add: lists_of_def)
  from l have sub: "\<And>k. k < NBUCKETS \<Longrightarrow> set (\<alpha> k) \<subseteq> P" by (auto simp: lists_of_def)
  from b sub have bn: "\<And>k. k < NBUCKETS \<Longrightarrow> b \<notin> set (Head k # \<alpha> k)" by auto
  from ring_head [OF ri] have nh: "nx (Head i) = hd (\<alpha> i @ [Head i])" by simp
  have nin: "nx (Head i) \<in> set (Head i # \<alpha> i)" unfolding nh by (cases "\<alpha> i") auto
  have rings: "ring ?nx ?pv (Head k) ((\<alpha>(i := b # \<alpha> i)) k)" if k: "k < NBUCKETS" for k
  proof (cases "k = i")
    case True
    show ?thesis
      unfolding True using ring_insert [OF ri bn [OF i]] by simp
  next
    case False
    from lists_nodes_disjoint [OF l i k] False
    have dj: "set (Head i # \<alpha> i) \<inter> set (Head k # \<alpha> k) = {}" by blast
    from l k have rk: "ring nx pv (Head k) (\<alpha> k)" by (simp add: lists_of_def)
    have "ring ?nx ?pv (Head k) (\<alpha> k)"
    proof (rule ring_cong [OF rk])
      fix x assume x: "x \<in> set (Head k # \<alpha> k)"
      with dj nin have "x \<noteq> nx (Head i)" "x \<noteq> Head i" by auto
      moreover from x bn [OF k] have "x \<noteq> b" by auto
      ultimately show "?nx x = nx x \<and> ?pv x = pv x" by simp
    qed
    with False show ?thesis by simp
  qed
  have dis: "set ((\<alpha>(i := b # \<alpha> i)) j) \<inter> set ((\<alpha>(i := b # \<alpha> i)) k) = {}"
    if "j < NBUCKETS" "k < NBUCKETS" "j \<noteq> k" for j k
  proof -
    from l that have "set (\<alpha> j) \<inter> set (\<alpha> k) = {}" by (simp add: lists_of_def)
    with that bn [of j] bn [of k] show ?thesis by auto
  qed
  have un: "(\<Union>k<NBUCKETS. set ((\<alpha>(i := b # \<alpha> i)) k)) = insert b P"
  proof -
    from l have "(\<Union>k<NBUCKETS. set (\<alpha> k)) = P" by (simp add: lists_of_def)
    with i show ?thesis by (auto split: if_splits)
  qed
  from l b have "insert b P \<subseteq> range Buf" by (auto simp: lists_of_def)
  with rings dis un show ?thesis
    unfolding lists_of_def by blast
qed

text \<open>Moving a buffer of the pool to the head of a bucket, as the source does it.\<close>

lemma lists_move:
  assumes l: "lists_of P (nextp s) (prevp s) \<alpha>" and b: "b \<in> P" and i: "i < NBUCKETS"
  shows "lists_of P (nextp (insert_head (Head i) b (unlink b s)))
           (prevp (insert_head (Head i) b (unlink b s)))
           ((\<lambda>k. removeAll b (\<alpha> k))(i := b # removeAll b (\<alpha> i)))"
proof -
  from l b have rb: "b \<in> range Buf" by (auto simp: lists_of_def)
  have 1: "lists_of (P - {b}) (nextp (unlink b s)) (prevp (unlink b s))
             (\<lambda>k. removeAll b (\<alpha> k))"
    unfolding unlink_ptrs by (rule lists_unlink [OF l b])
  have "lists_of (insert b (P - {b})) (nextp (insert_head (Head i) b (unlink b s)))
           (prevp (insert_head (Head i) b (unlink b s)))
           ((\<lambda>k. removeAll b (\<alpha> k))(i := b # removeAll b (\<alpha> i)))"
    unfolding insert_head_ptrs by (rule lists_insert [OF 1 rb _ i]) simp
  moreover have "insert b (P - {b}) = P" using b by auto
  ultimately show ?thesis by simp
qed

text \<open>The loops of \<^verbatim>\<open>bget\<close> only meet the buffers of the list.\<close>

lemma find_cached_in_ring:
  assumes r: "ring (nextp s) pv h xs"
  shows "xs = us @ ws \<Longrightarrow> find_cached f s h d blk (hd (ws @ [h])) = Some (Some b) \<Longrightarrow>
         b \<in> set ws"
proof (induction f arbitrary: us ws)
  case 0
  then show ?case by simp
next
  case (Suc f)
  show ?case
  proof (cases ws)
    case Nil
    with Suc.prems show ?thesis by simp
  next
    case (Cons w ws')
    from r Suc.prems(1) Cons have wh: "w \<noteq> h" by (auto simp: ring_def)
    from ring_split [OF r [unfolded Suc.prems(1) Cons]]
    have nw: "nextp s w = hd (ws' @ [h])" by simp
    show ?thesis
    proof (cases "dev s w = d \<and> blockno s w = blk")
      case True
      with Suc.prems(2) Cons wh show ?thesis by simp
    next
      case False
      with Suc.prems(2) Cons wh nw
      have "find_cached f s h d blk (hd (ws' @ [h])) = Some (Some b)" by auto
      from Suc.IH [OF _ this, of "us @ [w]"] Suc.prems(1) Cons
      show ?thesis by simp
    qed
  qed
qed

lemma find_unused_in_ring:
  assumes r: "ring nx (prevp s) h xs"
  shows "xs = us @ ws \<Longrightarrow> find_unused f s h (last (h # us)) = Some (Some b) \<Longrightarrow>
         b \<in> set us"
proof (induction f arbitrary: us ws)
  case 0
  then show ?case by simp
next
  case (Suc f)
  show ?case
  proof (cases us rule: rev_cases)
    case Nil
    with Suc.prems show ?thesis by simp
  next
    case (snoc us' u)
    from r Suc.prems(1) snoc have uh: "u \<noteq> h" by (auto simp: ring_def)
    from ring_split [of nx "prevp s" h us' u ws] r Suc.prems(1) snoc
    have pu: "prevp s u = last (h # us')" by simp
    show ?thesis
    proof (cases "refcnt s u = 0")
      case True
      with Suc.prems(2) snoc uh show ?thesis by simp
    next
      case False
      with Suc.prems(2) snoc uh pu
      have "find_unused f s h (last (h # us')) = Some (Some b)" by auto
      from Suc.IH [OF _ this, of "u # ws"] Suc.prems(1) snoc
      show ?thesis by simp
    qed
  qed
qed



subsection \<open>binit builds the lists\<close>

lemma init_buf_ptrs:
  "nextp (init_buf i b s) = (nextp s)(b := nextp s (Head i), Head i := b)"
  "prevp (init_buf i b s) = (prevp s)(b := Head i, nextp s (Head i) := b)"
  "refcnt (init_buf i b s) = refcnt s"
  by (auto simp: init_buf_def Let_def)

lemma init_heads:
  "nextp s = (\<lambda>b. b) \<Longrightarrow> prevp s = (\<lambda>b. b) \<Longrightarrow>
   nextp (fold init_head js s) = (\<lambda>b. b) \<and> prevp (fold init_head js s) = (\<lambda>b. b) \<and>
   refcnt (fold init_head js s) = refcnt s"
proof (induction js arbitrary: s)
  case Nil
  then show ?case by simp
next
  case (Cons j js)
  have "nextp (init_head j s) = (\<lambda>b. b)" "prevp (init_head j s) = (\<lambda>b. b)"
    "refcnt (init_head j s) = refcnt s"
    using Cons.prems by (auto simp: init_head_def Let_def)
  with Cons.IH [of "init_head j s"] show ?case by simp
qed

lemma lists_empty: "lists_of {} (\<lambda>b. b) (\<lambda>b. b) (\<lambda>i. [])"
  by (simp add: lists_of_def ring_def)

lemma chain_next:
  assumes "j mod NBUCKETS = i" "j \<le> j'" "j' mod NBUCKETS = i"
  shows "j' = j \<or> j + NBUCKETS \<le> j'"
proof (cases "j' = j")
  case False
  with assms(2) have pos: "0 < j' - j" by simp
  from assms have "NBUCKETS dvd j' - j"
    using mod_eq_dvd_iff_nat [of j j' NBUCKETS] by simp
  with pos have "NBUCKETS \<le> j' - j" by (simp add: dvd_imp_le)
  with assms(2) show ?thesis by arith
qed simp

lemma init_chain_lists:
  "lists_of P (nextp s) (prevp s) \<alpha> \<Longrightarrow> i < NBUCKETS \<Longrightarrow> j mod NBUCKETS = i \<Longrightarrow>
   (\<And>j'. j \<le> j' \<Longrightarrow> j' mod NBUCKETS = i \<Longrightarrow> Buf j' \<notin> P) \<Longrightarrow>
   (\<exists>\<alpha>'. lists_of (P \<union> Buf ` {j'. j \<le> j' \<and> j' < n \<and> j' mod NBUCKETS = i})
            (nextp (init_chain n i j s)) (prevp (init_chain n i j s)) \<alpha>') \<and>
   refcnt (init_chain n i j s) = refcnt s"
proof (induction n i j s arbitrary: P \<alpha> rule: init_chain.induct)
  case (1 n i j s)
  show ?case
  proof (cases "j < n")
    case False
    then have e: "init_chain n i j s = s" by (simp add: init_chain.simps)
    from False have emp: "{j'. j \<le> j' \<and> j' < n \<and> j' mod NBUCKETS = i} = {}" by auto
    show ?thesis
      unfolding e emp using "1.prems"(1) by (intro conjI exI [of _ \<alpha>]) simp_all
  next
    case True
    let ?s1 = "init_buf i (Buf j) s"
    have e: "init_chain n i j s = init_chain n i (j + NBUCKETS) ?s1"
      using True by (subst init_chain.simps) simp
    have nb: "Buf j \<notin> P" using "1.prems"(4) [of j] "1.prems"(3) by simp
    have l1: "lists_of (insert (Buf j) P) (nextp ?s1) (prevp ?s1) (\<alpha>(i := Buf j # \<alpha> i))"
      unfolding init_buf_ptrs
      by (rule lists_insert [OF "1.prems"(1) _ nb "1.prems"(2)]) simp
    have m: "(j + NBUCKETS) mod NBUCKETS = i" using "1.prems"(3) by simp
    have fresh: "Buf j' \<notin> insert (Buf j) P"
      if "j + NBUCKETS \<le> j'" "j' mod NBUCKETS = i" for j'
      using that "1.prems"(4) [of j'] by (auto simp: NBUCKETS_def)
    from "1.IH" [OF True l1 "1.prems"(2) m fresh] obtain \<alpha>' where
      a: "lists_of (insert (Buf j) P \<union>
              Buf ` {j'. j + NBUCKETS \<le> j' \<and> j' < n \<and> j' mod NBUCKETS = i})
            (nextp (init_chain n i (j + NBUCKETS) ?s1))
            (prevp (init_chain n i (j + NBUCKETS) ?s1)) \<alpha>'"
      and rc: "refcnt (init_chain n i (j + NBUCKETS) ?s1) = refcnt ?s1"
      by blast
    have eq: "{j'. j \<le> j' \<and> j' < n \<and> j' mod NBUCKETS = i} =
          insert j {j'. j + NBUCKETS \<le> j' \<and> j' < n \<and> j' mod NBUCKETS = i}"
    proof (intro set_eqI iffI)
      fix x assume "x \<in> {j'. j \<le> j' \<and> j' < n \<and> j' mod NBUCKETS = i}"
      then have x: "j \<le> x" "x < n" "x mod NBUCKETS = i" by simp_all
      from chain_next [OF "1.prems"(3) x(1,3)] x
      show "x \<in> insert j {j'. j + NBUCKETS \<le> j' \<and> j' < n \<and> j' mod NBUCKETS = i}"
        by blast
    next
      fix x assume "x \<in> insert j {j'. j + NBUCKETS \<le> j' \<and> j' < n \<and> j' mod NBUCKETS = i}"
      then have "x = j \<or> (j + NBUCKETS \<le> x \<and> x < n \<and> x mod NBUCKETS = i)" by simp
      with True "1.prems"(3)
      show "x \<in> {j'. j \<le> j' \<and> j' < n \<and> j' mod NBUCKETS = i}" by auto
    qed
    have "lists_of (P \<union> Buf ` {j'. j \<le> j' \<and> j' < n \<and> j' mod NBUCKETS = i})
            (nextp (init_chain n i (j + NBUCKETS) ?s1))
            (prevp (init_chain n i (j + NBUCKETS) ?s1)) \<alpha>'"
      unfolding eq using a by simp
    moreover have "refcnt (init_chain n i (j + NBUCKETS) ?s1) = refcnt s"
      using rc by (simp add: init_buf_ptrs)
    ultimately show ?thesis
      unfolding e by blast
  qed
qed

lemma init_buckets_lists:
  "lists_of P (nextp s) (prevp s) \<alpha> \<Longrightarrow> distinct js \<Longrightarrow> set js \<subseteq> {..<NBUCKETS} \<Longrightarrow>
   (\<And>i j'. i \<in> set js \<Longrightarrow> j' mod NBUCKETS = i \<Longrightarrow> Buf j' \<notin> P) \<Longrightarrow>
   (\<exists>\<alpha>'. lists_of (P \<union> Buf ` {j'. j' < n \<and> j' mod NBUCKETS \<in> set js})
            (nextp (fold (\<lambda>i. init_chain n i i) js s))
            (prevp (fold (\<lambda>i. init_chain n i i) js s)) \<alpha>') \<and>
   refcnt (fold (\<lambda>i. init_chain n i i) js s) = refcnt s"
proof (induction js arbitrary: P \<alpha> s)
  case Nil
  then show ?case by auto
next
  case (Cons i js)
  from Cons.prems(3) have i: "i < NBUCKETS" by simp
  then have im: "i mod NBUCKETS = i" by simp
  have fr: "Buf j' \<notin> P" if "i \<le> j'" "j' mod NBUCKETS = i" for j'
    using Cons.prems(4) [of i j'] that by simp
  from init_chain_lists [OF Cons.prems(1) i im fr, of n] obtain \<alpha>1 where
    a: "lists_of (P \<union> Buf ` {j'. i \<le> j' \<and> j' < n \<and> j' mod NBUCKETS = i})
            (nextp (init_chain n i i s)) (prevp (init_chain n i i s)) \<alpha>1"
    and rc: "refcnt (init_chain n i i s) = refcnt s"
    by blast
  let ?P1 = "P \<union> Buf ` {j'. i \<le> j' \<and> j' < n \<and> j' mod NBUCKETS = i}"
  from Cons.prems(2) have d: "distinct js" "i \<notin> set js" by simp_all
  from Cons.prems(3) have sub: "set js \<subseteq> {..<NBUCKETS}" by simp
  have fr1: "Buf j' \<notin> ?P1" if "k \<in> set js" "j' mod NBUCKETS = k" for k j'
    using Cons.prems(4) [of k j'] that d by auto
  have "(\<exists>\<alpha>'. lists_of (?P1 \<union> Buf ` {j'. j' < n \<and> j' mod NBUCKETS \<in> set js})
            (nextp (fold (\<lambda>i. init_chain n i i) js (init_chain n i i s)))
            (prevp (fold (\<lambda>i. init_chain n i i) js (init_chain n i i s))) \<alpha>') \<and>
        refcnt (fold (\<lambda>i. init_chain n i i) js (init_chain n i i s)) =
              refcnt (init_chain n i i s)"
  proof (rule Cons.IH [OF a d(1) sub])
    fix k j' assume "k \<in> set js" "j' mod NBUCKETS = k"
    then show "Buf j' \<notin> ?P1" by (rule fr1)
  qed
  then obtain \<alpha>' where
    b: "lists_of (?P1 \<union> Buf ` {j'. j' < n \<and> j' mod NBUCKETS \<in> set js})
            (nextp (fold (\<lambda>i. init_chain n i i) js (init_chain n i i s)))
            (prevp (fold (\<lambda>i. init_chain n i i) js (init_chain n i i s))) \<alpha>'"
    and rc2: "refcnt (fold (\<lambda>i. init_chain n i i) js (init_chain n i i s)) =
              refcnt (init_chain n i i s)"
    by blast
  have ge: "i \<le> j'" if "j' mod NBUCKETS = i" for j'
    using that mod_less_eq_dividend [of j' NBUCKETS] by simp
  have e1: "{j'. i \<le> j' \<and> j' < n \<and> j' mod NBUCKETS = i} = {j'. j' < n \<and> j' mod NBUCKETS = i}"
    using ge by blast
  have e2: "{j'. j' < n \<and> j' mod NBUCKETS \<in> set (i # js)} =
        {j'. j' < n \<and> j' mod NBUCKETS = i} \<union> {j'. j' < n \<and> j' mod NBUCKETS \<in> set js}"
    by auto
  have "?P1 \<union> Buf ` {j'. j' < n \<and> j' mod NBUCKETS \<in> set js} =
        P \<union> Buf ` {j'. j' < n \<and> j' mod NBUCKETS \<in> set (i # js)}"
    unfolding e1 e2 image_Un by (simp only: Un_assoc)
  with b have "lists_of (P \<union> Buf ` {j'. j' < n \<and> j' mod NBUCKETS \<in> set (i # js)})
            (nextp (fold (\<lambda>i. init_chain n i i) (i # js) s))
            (prevp (fold (\<lambda>i. init_chain n i i) (i # js) s)) \<alpha>'"
    by simp
  moreover have "refcnt (fold (\<lambda>i. init_chain n i i) (i # js) s) = refcnt s"
    using rc rc2 by simp
  ultimately show ?case by blast
qed

lemma binit_lists:
  "(\<exists>\<alpha>. lists_of (Buf ` {..<n}) (nextp (binit n dsk)) (prevp (binit n dsk)) \<alpha>) \<and>
   refcnt (binit n dsk) = (\<lambda>_. 0)"
proof -
  let ?s0 = "fold init_head [0..<NBUCKETS] (zeroed dsk)"
  have z: "nextp (zeroed dsk) = (\<lambda>b. b)" "prevp (zeroed dsk) = (\<lambda>b. b)"
    "refcnt (zeroed dsk) = (\<lambda>_. 0)"
    by (simp_all add: zeroed_def)
  from init_heads [OF z(1,2), of "[0..<NBUCKETS]"] z(3) have
    h: "nextp ?s0 = (\<lambda>b. b)" "prevp ?s0 = (\<lambda>b. b)" "refcnt ?s0 = (\<lambda>_. 0)"
    by simp_all
  have l0: "lists_of {} (nextp ?s0) (prevp ?s0) (\<lambda>i. [])"
    unfolding h by (rule lists_empty)
  have "(\<exists>\<alpha>. lists_of ({} \<union> Buf ` {j'. j' < n \<and> j' mod NBUCKETS \<in> set [0..<NBUCKETS]})
          (nextp (fold (\<lambda>i. init_chain n i i) [0..<NBUCKETS] ?s0))
          (prevp (fold (\<lambda>i. init_chain n i i) [0..<NBUCKETS] ?s0)) \<alpha>) \<and>
        refcnt (fold (\<lambda>i. init_chain n i i) [0..<NBUCKETS] ?s0) = refcnt ?s0"
  proof (rule init_buckets_lists [OF l0])
    show "distinct [0..<NBUCKETS]" by simp
    show "set [0..<NBUCKETS] \<subseteq> {..<NBUCKETS}" by auto
  qed simp
  then obtain \<alpha> where
    a: "lists_of ({} \<union> Buf ` {j'. j' < n \<and> j' mod NBUCKETS \<in> set [0..<NBUCKETS]})
          (nextp (binit n dsk)) (prevp (binit n dsk)) \<alpha>"
    and rc: "refcnt (binit n dsk) = refcnt ?s0"
    unfolding binit_def by blast
  have "{j'. j' < n \<and> j' mod NBUCKETS \<in> set [0..<NBUCKETS]} = {..<n}"
    by (auto simp: NBUCKETS_def)
  with a have "lists_of (Buf ` {..<n}) (nextp (binit n dsk)) (prevp (binit n dsk)) \<alpha>"
    by simp
  with rc h show ?thesis
    by (intro conjI exI [of _ \<alpha>]) simp_all
qed

subsection \<open>The invariant of the reachable states\<close>

lemma bucket_of_less: "bucket_of x < NBUCKETS"
  by (simp add: bucket_of_def NBUCKETS_def)

lemma cache_invI:
  assumes "lists_of (Buf ` {..<n}) (nextp s) (prevp s) \<alpha>"
    and "\<And>b. b \<in> H \<Longrightarrow> b \<in> set (\<alpha> (bucket_of (blockno s b)))"
    and "\<And>j. j < n \<Longrightarrow> refcnt s (Buf j) \<noteq> 0 \<Longrightarrow> Buf j \<in> H"
  shows "cache_inv n s H"
  unfolding cache_inv_def using assms by blast

text \<open>Steps that leave the lists and the block numbers alone.\<close>

lemma cache_inv_frame:
  assumes i: "cache_inv n s H"
    and p: "nextp s' = nextp s" "prevp s' = prevp s" "blockno s' = blockno s"
    and r: "\<And>j. j < n \<Longrightarrow> refcnt s' (Buf j) \<noteq> 0 \<Longrightarrow> refcnt s (Buf j) \<noteq> 0 \<or> Buf j \<in> H"
  shows "cache_inv n s' H"
proof -
  from i obtain \<alpha> where
    a: "lists_of (Buf ` {..<n}) (nextp s) (prevp s) \<alpha>"
       "\<forall>b\<in>H. b \<in> set (\<alpha> (bucket_of (blockno s b)))"
       "\<forall>j<n. refcnt s (Buf j) \<noteq> 0 \<longrightarrow> Buf j \<in> H"
    unfolding cache_inv_def by blast
  show ?thesis
  proof (rule cache_invI [of n s' \<alpha>])
    show "lists_of (Buf ` {..<n}) (nextp s') (prevp s') \<alpha>" using a(1) p by simp
    show "b \<in> set (\<alpha> (bucket_of (blockno s' b)))" if "b \<in> H" for b
      using that a(2) p by simp
    show "Buf j \<in> H" if "j < n" "refcnt s' (Buf j) \<noteq> 0" for j
      using r [OF that] a(3) that by blast
  qed
qed

text \<open>The first critical section: a hit, or a buffer of the bucket recycled in place.\<close>

lemma cache_inv_found:
  assumes i: "cache_inv n s H" and g: "bget_bucket f d blk s = Return (Some b) s'"
  shows "cache_inv n s' (insert b H)"
proof -
  let ?h = "Head (bucket_of blk)"
  from i obtain \<alpha> where
    a: "lists_of (Buf ` {..<n}) (nextp s) (prevp s) \<alpha>"
       "\<forall>b\<in>H. b \<in> set (\<alpha> (bucket_of (blockno s b)))"
       "\<forall>j<n. refcnt s (Buf j) \<noteq> 0 \<longrightarrow> Buf j \<in> H"
    unfolding cache_inv_def by blast
  from a(1) bucket_of_less have r: "ring (nextp s) (prevp s) ?h (\<alpha> (bucket_of blk))"
    by (simp add: lists_of_def)
  from ring_head [OF r] have
    nh: "nextp s ?h = hd (\<alpha> (bucket_of blk) @ [?h])" and
    ph: "prevp s ?h = last (?h # \<alpha> (bucket_of blk))"
    by simp_all
  from bget_bucket_Some [OF g] show ?thesis
  proof (elim disjE conjE)
    assume c: "find_cached f s ?h d blk (nextp s ?h) = Some (Some b)"
      and s': "s' = s\<lparr>refcnt := (refcnt s)(b := refcnt s b + 1),
                 trace := trace s @ [Acquire (Bucket (bucket_of blk)), Release (Bucket (bucket_of blk))]\<rparr>"
    from find_cached_in_ring [OF r, of "[]" "\<alpha> (bucket_of blk)" f d blk b] c nh
    have bin: "b \<in> set (\<alpha> (bucket_of blk))" by simp
    from find_cached_Some [OF c] have bb: "blockno s b = blk" by simp
    show ?thesis
    proof (rule cache_invI [of n s' \<alpha>])
      show "lists_of (Buf ` {..<n}) (nextp s') (prevp s') \<alpha>" using a(1) s' by simp
      show "b' \<in> set (\<alpha> (bucket_of (blockno s' b')))" if "b' \<in> insert b H" for b'
        using that a(2) bin bb s' by auto
      show "Buf j \<in> insert b H" if "j < n" "refcnt s' (Buf j) \<noteq> 0" for j
        using that a(3) s' by (cases "Buf j = b") auto
    qed
  next
    assume u: "find_unused f s ?h (prevp s ?h) = Some (Some b)"
      and s': "s' = (claim d blk b s)
                 \<lparr>trace := trace s @ [Acquire (Bucket (bucket_of blk)), Release (Bucket (bucket_of blk))]\<rparr>"
    from find_unused_in_ring [OF r, of "\<alpha> (bucket_of blk)" "[]" f b] u ph
    have bin: "b \<in> set (\<alpha> (bucket_of blk))" by simp
    show ?thesis
    proof (rule cache_invI [of n s' \<alpha>])
      show "lists_of (Buf ` {..<n}) (nextp s') (prevp s') \<alpha>"
        using a(1) s' by (simp add: claim_fields)
      show "b' \<in> set (\<alpha> (bucket_of (blockno s' b')))" if "b' \<in> insert b H" for b'
        using that a(2) bin s' by (cases "b' = b") (auto simp: claim_fields)
      show "Buf j \<in> insert b H" if "j < n" "refcnt s' (Buf j) \<noteq> 0" for j
        using that a(3) s' by (cases "Buf j = b") (auto simp: claim_fields)
    qed
  qed
qed

text \<open>Moving a buffer to the head of the list of the bucket of its block number.\<close>

lemma cache_inv_move:
  assumes a: "lists_of (Buf ` {..<n}) (nextp s) (prevp s) \<alpha>"
       "\<forall>b\<in>H. b \<in> set (\<alpha> (bucket_of (blockno s b)))"
    and b: "b \<in> Buf ` {..<n}"
    and p: "nextp s' = nextp (insert_head (Head (bucket_of (blockno s' b))) b (unlink b s))"
           "prevp s' = prevp (insert_head (Head (bucket_of (blockno s' b))) b (unlink b s))"
    and k: "\<And>b'. b' \<noteq> b \<Longrightarrow> blockno s' b' = blockno s b'"
    and r: "\<And>j. j < n \<Longrightarrow> refcnt s' (Buf j) \<noteq> 0 \<Longrightarrow> Buf j \<in> H'"
    and H': "H' \<subseteq> insert b H"
  shows "cache_inv n s' H'"
proof -
  let ?i = "bucket_of (blockno s' b)"
  let ?\<alpha> = "(\<lambda>k. removeAll b (\<alpha> k))(?i := b # removeAll b (\<alpha> ?i))"
  show ?thesis
  proof (rule cache_invI [of n s' ?\<alpha>])
    show "lists_of (Buf ` {..<n}) (nextp s') (prevp s') ?\<alpha>"
      unfolding p by (rule lists_move [OF a(1) b bucket_of_less])
    show "b' \<in> set (?\<alpha> (bucket_of (blockno s' b')))" if "b' \<in> H'" for b'
    proof (cases "b' = b")
      case True
      then show ?thesis by simp
    next
      case False
      with that H' have "b' \<in> H" by auto
      with a(2) have "b' \<in> set (\<alpha> (bucket_of (blockno s b')))" by blast
      with False k [OF False] show ?thesis by auto
    qed
    show "Buf j \<in> H'" if "j < n" "refcnt s' (Buf j) \<noteq> 0" for j
      using r [OF that] .
  qed
qed

lemma move_ptrs_cong:
  "nextp t = nextp s \<Longrightarrow> prevp t = prevp s \<Longrightarrow>
   nextp (insert_head h b (unlink b t)) = nextp (insert_head h b (unlink b s)) \<and>
   prevp (insert_head h b (unlink b t)) = prevp (insert_head h b (unlink b s))"
  by (simp add: unlink_ptrs insert_head_ptrs)

lemma cache_inv_stolen:
  assumes i: "cache_inv n s H" and g: "bget_steal n d blk s = Return b s'"
  shows "cache_inv n s' (insert b H)"
proof -
  from i obtain \<alpha> where
    a: "lists_of (Buf ` {..<n}) (nextp s) (prevp s) \<alpha>"
       "\<forall>b\<in>H. b \<in> set (\<alpha> (bucket_of (blockno s b)))"
       "\<forall>j<n. refcnt s (Buf j) \<noteq> 0 \<longrightarrow> Buf j \<in> H"
    unfolding cache_inv_def by blast
  from bget_steal_Return [OF g] obtain j pre where
    j: "j < n" "b = Buf j" and
    s': "s' = (insert_head (Head (bucket_of blk)) b (unlink b (claim d blk b s)))
             \<lparr>trace := trace s @ [Acquire Global, Acquire (Bucket (bucket_of blk))] @ pre @
                [Acquire (Bucket (bucket_of (blockno s b))),
                 Release (Bucket (bucket_of (blockno s b))),
                 Release (Bucket (bucket_of blk)), Release Global]\<rparr>"
    by blast
  have bb: "blockno s' b = blk" unfolding s' by (simp add: list_ops_fields claim_fields)
  have pc: "nextp (claim d blk b s) = nextp s" "prevp (claim d blk b s) = prevp s"
    by (simp_all add: claim_fields)
  show ?thesis
  proof (rule cache_inv_move [OF a(1,2)])
    show "b \<in> Buf ` {..<n}" using j by simp
    show "nextp s' = nextp (insert_head (Head (bucket_of (blockno s' b))) b (unlink b s))"
      unfolding bb using move_ptrs_cong [OF pc] by (simp add: s')
    show "prevp s' = prevp (insert_head (Head (bucket_of (blockno s' b))) b (unlink b s))"
      unfolding bb using move_ptrs_cong [OF pc] by (simp add: s')
    show "blockno s' b' = blockno s b'" if "b' \<noteq> b" for b'
      using that unfolding s' by (simp add: list_ops_fields claim_fields)
    show "Buf k \<in> insert b H" if "k < n" "refcnt s' (Buf k) \<noteq> 0" for k
      using that a(3) unfolding s'
      by (cases "Buf k = b") (auto simp: list_ops_fields claim_fields)
    show "insert b H \<subseteq> insert b H" by simp
  qed
qed

lemma brelse_ptrs:
  assumes "brelse p b s = Return () s'"
  shows "blockno s' = blockno s \<and> refcnt s' = (refcnt s)(b := refcnt s b - 1) \<and>
     (if refcnt s b = 1
      then nextp s' = nextp (insert_head (Head (bucket_of (blockno s b))) b (unlink b s)) \<and>
           prevp s' = prevp (insert_head (Head (bucket_of (blockno s b))) b (unlink b s))
      else nextp s' = nextp s \<and> prevp s' = prevp s)"
proof -
  from assms have h: "holdingsleep p b s"
    by (auto simp: brelse_def split: if_splits)
  have e: "refcnt s b - 1 = 0 \<longleftrightarrow> refcnt s b = 1"
    by auto
  from assms h show ?thesis
    by (cases "refcnt s b = 1")
       (auto simp: brelse_def Let_def releasesleep_def acquire_def release_def
          list_ops_fields unlink_ptrs insert_head_ptrs e)
qed

lemma cache_inv_released:
  assumes i: "cache_inv n s H" and b: "b \<in> H" and g: "brelse p b s = Return () s'"
  shows "cache_inv n s' H"
proof (cases "refcnt s b = 1")
  case False
  with brelse_ptrs [OF g] have
    p: "nextp s' = nextp s" "prevp s' = prevp s" "blockno s' = blockno s"
       "refcnt s' = (refcnt s)(b := refcnt s b - 1)"
    by simp_all
  show ?thesis
  proof (rule cache_inv_frame [OF i p(1,2,3)])
    fix j assume "j < n" "refcnt s' (Buf j) \<noteq> 0"
    then show "refcnt s (Buf j) \<noteq> 0 \<or> Buf j \<in> H"
      using b unfolding p(4) by (cases "Buf j = b") auto
  qed
next
  case True
  with brelse_ptrs [OF g] have
    p: "nextp s' = nextp (insert_head (Head (bucket_of (blockno s b))) b (unlink b s))"
       "prevp s' = prevp (insert_head (Head (bucket_of (blockno s b))) b (unlink b s))"
       "blockno s' = blockno s" "refcnt s' = (refcnt s)(b := refcnt s b - 1)"
    by simp_all
  from i obtain \<alpha> where
    a: "lists_of (Buf ` {..<n}) (nextp s) (prevp s) \<alpha>"
       "\<forall>b\<in>H. b \<in> set (\<alpha> (bucket_of (blockno s b)))"
       "\<forall>j<n. refcnt s (Buf j) \<noteq> 0 \<longrightarrow> Buf j \<in> H"
    unfolding cache_inv_def by blast
  from a(2) b have "b \<in> set (\<alpha> (bucket_of (blockno s b)))" by blast
  with a(1) bucket_of_less have bp: "b \<in> Buf ` {..<n}" by (auto simp: lists_of_def)
  show ?thesis
  proof (rule cache_inv_move [OF a(1,2) bp])
    show "nextp s' = nextp (insert_head (Head (bucket_of (blockno s' b))) b (unlink b s))"
      using p by simp
    show "prevp s' = prevp (insert_head (Head (bucket_of (blockno s' b))) b (unlink b s))"
      using p by simp
    show "blockno s' b' = blockno s b'" for b' using p by simp
    show "Buf j \<in> H" if "j < n" "refcnt s' (Buf j) \<noteq> 0" for j
      using that a(3) b unfolding p(4) by (cases "Buf j = b") auto
    show "H \<subseteq> insert b H" by auto
  qed
qed

lemma cache_inv_init: "cache_inv n (binit n dsk) {}"
proof -
  from binit_lists [of n dsk] obtain \<alpha> where
    "lists_of (Buf ` {..<n}) (nextp (binit n dsk)) (prevp (binit n dsk)) \<alpha>"
    and "refcnt (binit n dsk) = (\<lambda>_. 0)"
    by blast
  then have "lists_of (Buf ` {..<n}) (nextp (binit n dsk)) (prevp (binit n dsk)) \<alpha>"
    and z: "\<And>j. refcnt (binit n dsk) (Buf j) = 0"
    by simp_all
  then show ?thesis
    by (intro cache_invI [of n _ \<alpha>]) simp_all
qed

text \<open>The invariant of the reachable states.\<close>

lemma reach_inv: "reach n s H \<Longrightarrow> cache_inv n s H"
proof (induction rule: reach.induct)
  case (init dsk)
  show ?case by (rule cache_inv_init)
next
  case (found s H f d blk b s')
  show ?case by (rule cache_inv_found [OF found.IH found.hyps(2)])
next
  case (missed s H f d blk s')
  from bget_bucket_None [OF missed.hyps(2)] have
    e: "s' = s\<lparr>trace := trace s @ [Acquire (Bucket (bucket_of blk)), Release (Bucket (bucket_of blk))]\<rparr>"
    by simp
  show ?case
    unfolding e by (rule cache_inv_frame [OF missed.IH]) simp_all
next
  case (stolen s H d blk b s')
  show ?case by (rule cache_inv_stolen [OF stolen.IH stolen.hyps(2)])
next
  case (locked s H b p s')
  then have e: "s' = s\<lparr>holder := (holder s)(b := Some p)\<rparr>"
    by (auto simp: acquiresleep_def split: if_splits)
  show ?case
    unfolding e by (rule cache_inv_frame [OF locked.IH]) simp_all
next
  case (filled s H b p s')
  show ?case
    by (rule cache_inv_frame [OF filled.IH])
       (simp_all add: filled.hyps(5) virtio_disk_rw_def)
next
  case (modified s H b p x)
  show ?case
    by (rule cache_inv_frame [OF modified.IH]) simp_all
next
  case (wrote s H b p s')
  then have e: "s' = virtio_disk_rw b True s"
    by (auto simp: bwrite_def split: if_splits)
  show ?case
    unfolding e by (rule cache_inv_frame [OF wrote.IH]) (simp_all add: virtio_disk_rw_def)
next
  case (released s H b p s')
  show ?case by (rule cache_inv_released [OF released.IH released.hyps(2,3)])
next
  case (pinned s H b)
  show ?case
  proof (rule cache_inv_frame [OF pinned.IH])
    fix j assume "j < n" "refcnt (bpin b s) (Buf j) \<noteq> 0"
    then show "refcnt s (Buf j) \<noteq> 0 \<or> Buf j \<in> H"
      using pinned.hyps(2)
      by (cases "Buf j = b") (auto simp: bpin_def Let_def acquire_def release_def)
  qed (simp_all add: bpin_def Let_def acquire_def release_def)
next
  case (unpinned s H b)
  show ?case
  proof (rule cache_inv_frame [OF unpinned.IH])
    fix j assume "j < n" "refcnt (bunpin b s) (Buf j) \<noteq> 0"
    then show "refcnt s (Buf j) \<noteq> 0 \<or> Buf j \<in> H"
      using unpinned.hyps(2)
      by (cases "Buf j = b") (auto simp: bunpin_def Let_def acquire_def release_def)
  qed (simp_all add: bunpin_def Let_def acquire_def release_def)
qed



lemma reach_bget:
  assumes r: "reach n s H" and g: "bget f n p d blk s = Return b s'"
  shows "reach n s' (insert b H)"
proof -
  from bget_Return [OF g] obtain s1 where
    s1: "bget_reserve f n d blk s = Return b s1" "holder s1 b = None"
        "s' = s1\<lparr>holder := (holder s1)(b := Some p)\<rparr>"
    by blast
  have a: "acquiresleep p b s1 = Some s'"
    using s1 by (simp add: acquiresleep_def)
  have "reach n s1 (insert b H)"
  proof (cases "bget_bucket f d blk s")
    case (Return x t)
    show ?thesis
    proof (cases x)
      case None
      with Return s1(1) have "bget_steal n d blk t = Return b s1"
        by (simp add: bget_reserve_def)
      from reach.stolen [OF reach.missed [OF r Return [unfolded None]] this]
      show ?thesis .
    next
      case (Some b')
      with Return s1(1) have "b' = b" "t = s1" by (simp_all add: bget_reserve_def)
      with reach.found [OF r Return [unfolded Some]] show ?thesis by simp
    qed
  qed (use s1(1) in \<open>simp_all add: bget_reserve_def\<close>)
  from reach.locked [OF this _ a] show ?thesis by simp
qed

text \<open>
  Processes 7 and 8 hold blocks 18 and 31 in buffers 5 and 18, the whole of bucket 5,
  and two processes have missed block 5 there: a reachable state.
\<close>

lemma reach_both_missed:
  "value_of (bget_bucket 31 1 5 bucket5_full) = Some None \<and>
   value_of (bget_bucket 31 1 5 (state_of (bget_bucket 31 1 5 bucket5_full))) = Some None \<and>
   reach 30 both_missed {Buf 18, Buf 5}"
proof -
  let ?a = "state_of (bget 31 30 7 1 18 boot)"
  let ?m = "state_of (bget_bucket 31 1 5 bucket5_full)"
  have v1: "value_of (bget 31 30 7 1 18 boot) = Some (Buf 5)" by code_simp
  have v2: "value_of (bget 31 30 8 1 31 ?a) = Some (Buf 18)" by code_simp
  have v3: "value_of (bget_bucket 31 1 5 bucket5_full) = Some None" by code_simp
  have v4: "value_of (bget_bucket 31 1 5 ?m) = Some None" by code_simp
  have r0: "reach 30 boot {}" unfolding boot_def by (rule reach.init)
  have r1: "reach 30 ?a {Buf 5}"
    using reach_bget [OF r0 value_of_Return [OF v1]] by simp
  have r2: "reach 30 bucket5_full {Buf 18, Buf 5}"
    using reach_bget [OF r1 value_of_Return [OF v2]] by (simp add: bucket5_full_def)
  have r3: "reach 30 ?m {Buf 18, Buf 5}"
    by (rule reach.missed [OF r2 value_of_Return [OF v3]])
  have r4: "reach 30 both_missed {Buf 18, Buf 5}"
    using reach.missed [OF r3 value_of_Return [OF v4]] by (simp add: both_missed_def)
  from v3 v4 r4 show ?thesis by simp
qed


subsection \<open>Two buffers for one block\<close>

text \<open>
  C2 at its failing input.  With the two buffers of bucket 5 in use, processes 9 and 10
  both call \<^verbatim>\<open>bget(1, 5)\<close>.  Each misses in its first critical section and releases the
  bucket lock; then each runs the second one, which does not look for the block again:
  the first takes buffer 0 and the second buffer 1.  In the state reached, both buffers
  stand for block 5 of device 1, both with a reference count of 1.
\<close>

theorem two_buffers_for_one_block:
  "value_of (bget_bucket 31 1 5 bucket5_full) = Some None \<and>
   value_of (bget_bucket 31 1 5 (state_of (bget_bucket 31 1 5 bucket5_full))) = Some None \<and>
   value_of (bget_steal 30 1 5 both_missed) = Some (Buf 0) \<and>
   value_of (bget_steal 30 1 5 first_stole) = Some (Buf 1) \<and>
   reach 30 second_stole {Buf 1, Buf 0, Buf 18, Buf 5} \<and>
   fields second_stole (Buf 0) = (1, 5, False, 1, None) \<and>
   fields second_stole (Buf 1) = (1, 5, False, 1, None)"
proof -
  have v5: "value_of (bget_steal 30 1 5 both_missed) = Some (Buf 0)" by code_simp
  have v6: "value_of (bget_steal 30 1 5 first_stole) = Some (Buf 1)" by code_simp
  have f0: "fields second_stole (Buf 0) = (1, 5, False, 1, None)" by code_simp
  have f1: "fields second_stole (Buf 1) = (1, 5, False, 1, None)" by code_simp
  from reach_both_missed have r4: "reach 30 both_missed {Buf 18, Buf 5}" by simp
  have r5: "reach 30 first_stole {Buf 0, Buf 18, Buf 5}"
    using reach.stolen [OF r4 value_of_Return [OF v5]] by (simp add: first_stole_def)
  have r6: "reach 30 second_stole {Buf 1, Buf 0, Buf 18, Buf 5}"
    using reach.stolen [OF r5 value_of_Return [OF v6]] by (simp add: second_stole_def)
  from reach_both_missed v5 v6 r6 f0 f1 show ?thesis by simp
qed

subsection \<open>The list loops end\<close>

lemma find_cached_total:
  assumes r: "ring (nextp s) pv h xs"
  shows "xs = us @ ws \<Longrightarrow> length ws < f \<Longrightarrow> find_cached f s h d blk (hd (ws @ [h])) \<noteq> None"
proof (induction f arbitrary: us ws)
  case 0
  then show ?case by simp
next
  case (Suc f)
  show ?case
  proof (cases ws)
    case Nil
    then show ?thesis by simp
  next
    case (Cons w ws')
    from ring_split [OF r [unfolded Suc.prems(1) Cons]]
    have nw: "nextp s w = hd (ws' @ [h])" by simp
    from Suc.IH [of "us @ [w]" ws'] Suc.prems Cons
    have "find_cached f s h d blk (hd (ws' @ [h])) \<noteq> None" by simp
    with Cons nw show ?thesis by simp
  qed
qed

lemma find_unused_total:
  assumes r: "ring nx (prevp s) h xs"
  shows "xs = us @ ws \<Longrightarrow> length us < f \<Longrightarrow> find_unused f s h (last (h # us)) \<noteq> None"
proof (induction f arbitrary: us ws)
  case 0
  then show ?case by simp
next
  case (Suc f)
  show ?case
  proof (cases us rule: rev_cases)
    case Nil
    then show ?thesis by simp
  next
    case (snoc us' u)
    from ring_split [of nx "prevp s" h us' u ws] r Suc.prems(1) snoc
    have pu: "prevp s u = last (h # us')" by simp
    from Suc.IH [of us' "u # ws"] Suc.prems snoc
    have "find_unused f s h (last (h # us')) \<noteq> None" by simp
    with snoc pu show ?thesis by simp
  qed
qed

lemma ring_length:
  assumes l: "lists_of (Buf ` {..<n}) nx pv \<alpha>" and i: "i < NBUCKETS"
  shows "length (\<alpha> i) \<le> n"
proof -
  from l i have "distinct (\<alpha> i)" by (simp add: lists_of_def ring_def)
  moreover from l i have "set (\<alpha> i) \<subseteq> Buf ` {..<n}" by (auto simp: lists_of_def)
  then have "card (set (\<alpha> i)) \<le> card (Buf ` {..<n})"
    by (intro card_mono) simp_all
  moreover have "card (Buf ` {..<n}) \<le> n" using card_image_le [of "{..<n}" Buf] by simp
  ultimately show ?thesis by (simp add: distinct_card)
qed

text \<open>
  In a reachable state the list loops of \<^verbatim>\<open>bget\<close> end: with more fuel than the pool has
  buffers, \<^verbatim>\<open>bget\<close> returns, panics or goes to sleep.
\<close>

lemma bget_bucket_ends:
  assumes r: "reach n s H" and f: "n < f"
  shows "bget_bucket f d blk s \<noteq> Diverges"
proof -
  let ?h = "Head (bucket_of blk)"
  let ?s1 = "acquire (Bucket (bucket_of blk)) s"
  from reach_inv [OF r] obtain \<alpha> where
    a: "lists_of (Buf ` {..<n}) (nextp s) (prevp s) \<alpha>"
    unfolding cache_inv_def by blast
  from a bucket_of_less have rg: "ring (nextp s) (prevp s) ?h (\<alpha> (bucket_of blk))"
    by (simp add: lists_of_def)
  from ring_length [OF a bucket_of_less [of blk]] f
  have len: "length (\<alpha> (bucket_of blk)) < f"
    by simp
  from ring_head [OF rg] have
    nh: "nextp s ?h = hd (\<alpha> (bucket_of blk) @ [?h])" and
    ph: "prevp s ?h = last (?h # \<alpha> (bucket_of blk))"
    by simp_all
  have c: "find_cached f ?s1 ?h d blk (nextp ?s1 ?h) \<noteq> None"
    using find_cached_total [OF rg, of "[]" "\<alpha> (bucket_of blk)" f d blk] len nh
      find_cached_cong [of ?s1 s f ?h d blk]
    by (simp add: acquire_def)
  have u: "find_unused f ?s1 ?h (prevp ?s1 ?h) \<noteq> None"
    using find_unused_total [OF rg, of "\<alpha> (bucket_of blk)" "[]" f] len ph
      find_unused_cong [of ?s1 s f ?h]
    by (simp add: acquire_def)
  from c u show ?thesis
    unfolding bget_bucket_def Let_def
    by (auto split: option.splits)
qed

lemma bget_ends:
  assumes r: "reach n s H" and f: "n < f"
  shows "bget f n p d blk s \<noteq> Diverges"
proof -
  from bget_bucket_ends [OF r f, of d blk] bget_steal_cases [of n d blk]
  have "bget_reserve f n d blk s \<noteq> Diverges"
    unfolding bget_reserve_def
    by (auto split: outcome.splits option.splits) (metis outcome.distinct)+
  then show ?thesis
    unfolding bget_def by (auto split: outcome.splits option.splits)
qed

end
